theory Spec2Isabelle
  imports Complex_Main
begin

section \<open>The chess engine of \<open>src/utils/chessEngine.ts\<close>\<close>

subsection \<open>Data model\<close>

text \<open>
  The board is a \<open>string[][]\<close>: a list of rows, each a list of cells. A cell is the empty
  string or a two-character string (colour \<open>w\<close>/\<open>b\<close>, then kind \<open>P R N B Q K\<close>).
  Coordinates are JavaScript numbers used as array indices; they are integers here.
  The only exception the engine can raise is the \<open>TypeError\<close> of indexing \<open>undefined\<close>
  (a row that does not exist), so every function returns \<open>error + result\<close>.
\<close>

datatype error = TypeError

type_synonym square = "int \<times> int"

type_synonym board = "string list list"

record GameState =
  canWhiteCastleKingside :: bool
  canWhiteCastleQueenside :: bool
  canBlackCastleKingside :: bool
  canBlackCastleQueenside :: bool

definition bindE :: "error + 'a \<Rightarrow> ('a \<Rightarrow> error + 'b) \<Rightarrow> error + 'b" where
  "bindE m f = (case m of Inl e \<Rightarrow> Inl e | Inr x \<Rightarrow> f x)"

text \<open>\<open>s.charAt(i)\<close>: the one-character string at index \<open>i\<close>, or the empty string.\<close>

definition charAt :: "string \<Rightarrow> nat \<Rightarrow> string" where
  "charAt s i = (if i < length s then [s ! i] else [])"

text \<open>
  \<open>xs[i]\<close> on an existing row. Outside the row JavaScript yields \<open>undefined\<close>; the engine
  only tests such a value for truthiness or compares it with a non-empty literal, where
  \<open>undefined\<close> and the empty string agree, so the model yields the empty string.
\<close>

definition slot :: "string list \<Rightarrow> int \<Rightarrow> string" where
  "slot xs i = (if 0 \<le> i \<and> i < int (length xs) then xs ! nat i else [])"

text \<open>\<open>board[r][c]\<close>: a missing row is \<open>undefined\<close>, and indexing it raises.\<close>

definition cellAt :: "board \<Rightarrow> int \<Rightarrow> int \<Rightarrow> error + string" where
  "cellAt b r c =
     (if 0 \<le> r \<and> r < int (length b) then Inr (slot (b ! nat r) c) else Inl TypeError)"

text \<open>
  \<open>xs[i] = v\<close>: inside the row the slot is overwritten; beyond its end JavaScript extends
  the array (the gap reads as \<open>undefined\<close>, here the empty string); a negative index adds a
  property and leaves the elements alone.
\<close>

definition setSlot :: "string list \<Rightarrow> int \<Rightarrow> string \<Rightarrow> string list" where
  "setSlot xs i v =
     (if i < 0 then xs
      else if i < int (length xs) then xs[nat i := v]
      else xs @ replicate (nat i - length xs) [] @ [v])"

definition setCell :: "board \<Rightarrow> int \<Rightarrow> int \<Rightarrow> string \<Rightarrow> error + board" where
  "setCell b r c v =
     (if 0 \<le> r \<and> r < int (length b) then Inr (b[nat r := setSlot (b ! nat r) c v])
      else Inl TypeError)"

definition initialBoard :: board where
  "initialBoard =
     [[''bR'', ''bN'', ''bB'', ''bQ'', ''bK'', ''bB'', ''bN'', ''bR''],
      [''bP'', ''bP'', ''bP'', ''bP'', ''bP'', ''bP'', ''bP'', ''bP''],
      ['''', '''', '''', '''', '''', '''', '''', ''''],
      ['''', '''', '''', '''', '''', '''', '''', ''''],
      ['''', '''', '''', '''', '''', '''', '''', ''''],
      ['''', '''', '''', '''', '''', '''', '''', ''''],
      [''wP'', ''wP'', ''wP'', ''wP'', ''wP'', ''wP'', ''wP'', ''wP''],
      [''wR'', ''wN'', ''wB'', ''wQ'', ''wK'', ''wB'', ''wN'', ''wR'']]"

definition initialGameState :: GameState where
  "initialGameState =
     \<lparr>canWhiteCastleKingside = True, canWhiteCastleQueenside = True,
      canBlackCastleKingside = True, canBlackCastleQueenside = True\<rparr>"

text \<open>The squares in the order of the nested loops \<open>for row 0..7 { for col 0..7 }\<close>.\<close>

definition allSquares :: "square list" where
  "allSquares = concat (map (\<lambda>r. map (\<lambda>c. (r, c)) [0..7]) [0..7])"

subsection \<open>Raw move generation (\<open>getRawPossibleMoves\<close>)\<close>

text \<open>The pawn's forward move and its double move from the start row.\<close>

definition pawnForward :: "board \<Rightarrow> int \<Rightarrow> int \<Rightarrow> int \<Rightarrow> bool \<Rightarrow> error + square list" where
  "pawnForward b row col direction isWhite =
     (if row + direction \<ge> 0 \<and> row + direction < 8 then
        bindE (cellAt b (row + direction) col) (\<lambda>ahead.
          if ahead = [] then
            (let startRow = (if isWhite then 6 else 1) in
             if row = startRow then
               bindE (cellAt b (row + 2 * direction) col) (\<lambda>ahead2.
                 Inr ((row + direction, col) #
                      (if ahead2 = [] then [(row + 2 * direction, col)] else [])))
             else Inr [(row + direction, col)])
          else Inr [])
      else Inr [])"

text \<open>The pawn's capture loop \<open>for (const offset of [-1, 1])\<close>: the row is not range-checked.\<close>

fun pawnCaptures :: "board \<Rightarrow> string \<Rightarrow> int \<Rightarrow> int \<Rightarrow> int \<Rightarrow> int list \<Rightarrow> error + square list" where
  "pawnCaptures b piece row col direction [] = Inr []"
| "pawnCaptures b piece row col direction (offset # rest) =
     (if col + offset \<ge> 0 \<and> col + offset < 8 then
        bindE (cellAt b (row + direction) (col + offset)) (\<lambda>targetPiece.
          bindE (pawnCaptures b piece row col direction rest) (\<lambda>ms.
            Inr (if targetPiece \<noteq> [] \<and> charAt targetPiece 0 \<noteq> charAt piece 0
                 then (row + direction, col + offset) # ms else ms)))
      else pawnCaptures b piece row col direction rest)"

text \<open>
  The \<open>while\<close> loop of a sliding piece, entered at \<open>(r, c)\<close> with step \<open>(dr, dc)\<close>. The source
  only ever uses the eight unit directions; the test \<open>dr \<noteq> 0 \<or> dc \<noteq> 0\<close> is not in the
  source and only makes the recursion total for a step the source never takes.
\<close>

function slide :: "board \<Rightarrow> string \<Rightarrow> int \<Rightarrow> int \<Rightarrow> int \<Rightarrow> int \<Rightarrow> error + square list" where
  "slide b piece dr dc r c =
     (if r \<ge> 0 \<and> r < 8 \<and> c \<ge> 0 \<and> c < 8 \<and> (dr \<noteq> 0 \<or> dc \<noteq> 0) then
        (case cellAt b r c of
           Inl e \<Rightarrow> Inl e
         | Inr x \<Rightarrow>
             if x = [] then
               (case slide b piece dr dc (r + dr) (c + dc) of
                  Inl e \<Rightarrow> Inl e
                | Inr ms \<Rightarrow> Inr ((r, c) # ms))
             else Inr (if charAt x 0 \<noteq> charAt piece 0 then [(r, c)] else []))
      else Inr [])"
  by pat_completeness auto
termination
  by (relation "measure (\<lambda>(b, piece, dr, dc, r, c).
        if dr > 0 then nat (8 - r) else if dr < 0 then nat (r + 1)
        else if dc > 0 then nat (8 - c) else nat (c + 1))") auto

declare slide.simps [simp del]

text \<open>The loop over the direction list of a rook, bishop or queen.\<close>

fun slideDirs :: "board \<Rightarrow> string \<Rightarrow> int \<Rightarrow> int \<Rightarrow> (int \<times> int) list \<Rightarrow> error + square list" where
  "slideDirs b piece row col [] = Inr []"
| "slideDirs b piece row col (d # ds) =
     bindE (slide b piece (fst d) (snd d) (row + fst d) (col + snd d)) (\<lambda>ms.
       bindE (slideDirs b piece row col ds) (\<lambda>rest. Inr (ms @ rest)))"

text \<open>The loop over the offset list of a knight or a king (the two loops are the same text).\<close>

fun stepMoves :: "board \<Rightarrow> string \<Rightarrow> int \<Rightarrow> int \<Rightarrow> (int \<times> int) list \<Rightarrow> error + square list" where
  "stepMoves b piece row col [] = Inr []"
| "stepMoves b piece row col (off # offs) =
     (let r = row + fst off; c = col + snd off in
      if r \<ge> 0 \<and> r < 8 \<and> c \<ge> 0 \<and> c < 8 then
        bindE (cellAt b r c) (\<lambda>x.
          bindE (stepMoves b piece row col offs) (\<lambda>ms.
            Inr (if x = [] \<or> charAt x 0 \<noteq> charAt piece 0 then (r, c) # ms else ms)))
      else stepMoves b piece row col offs)"

definition rookDirs :: "(int \<times> int) list" where
  "rookDirs = [(0, 1), (1, 0), (0, -1), (-1, 0)]"

definition bishopDirs :: "(int \<times> int) list" where
  "bishopDirs = [(1, 1), (1, -1), (-1, -1), (-1, 1)]"

definition knightOffsets :: "(int \<times> int) list" where
  "knightOffsets = [(1, 2), (2, 1), (2, -1), (1, -2), (-1, -2), (-2, -1), (-2, 1), (-1, 2)]"

definition kingOffsets :: "(int \<times> int) list" where
  "kingOffsets = [(0, 1), (1, 1), (1, 0), (1, -1), (0, -1), (-1, -1), (-1, 0), (-1, 1)]"

text \<open>The pawn block: the forward moves, then the captures.\<close>

definition pawnMoves :: "board \<Rightarrow> string \<Rightarrow> int \<Rightarrow> int \<Rightarrow> error + square list" where
  "pawnMoves b piece row col =
     (let isWhite = (charAt piece 0 = ''w''); direction = (if isWhite then -1 else 1) in
      bindE (pawnForward b row col direction isWhite) (\<lambda>fw.
        bindE (pawnCaptures b piece row col direction [-1, 1]) (\<lambda>cp. Inr (fw @ cp))))"

text \<open>
  The five blocks of \<open>getRawPossibleMoves\<close> in their order (pawn; rook or queen; knight;
  bishop or queen; king), each pushing onto the same list.
\<close>

definition pieceMoves :: "board \<Rightarrow> string \<Rightarrow> int \<Rightarrow> int \<Rightarrow> error + square list" where
  "pieceMoves b piece row col =
     (let pieceType = charAt piece 1 in
      bindE (if pieceType = ''P'' then pawnMoves b piece row col else Inr []) (\<lambda>m1.
      bindE (if pieceType = ''R'' \<or> pieceType = ''Q''
             then slideDirs b piece row col rookDirs else Inr []) (\<lambda>m2.
      bindE (if pieceType = ''N''
             then stepMoves b piece row col knightOffsets else Inr []) (\<lambda>m3.
      bindE (if pieceType = ''B'' \<or> pieceType = ''Q''
             then slideDirs b piece row col bishopDirs else Inr []) (\<lambda>m4.
      bindE (if pieceType = ''K''
             then stepMoves b piece row col kingOffsets else Inr []) (\<lambda>m5.
        Inr (m1 @ m2 @ m3 @ m4 @ m5)))))))"

definition getRawPossibleMoves :: "int \<Rightarrow> int \<Rightarrow> board \<Rightarrow> error + square list" where
  "getRawPossibleMoves row col b =
     bindE (cellAt b row col) (\<lambda>piece.
       if piece = [] then Inr [] else pieceMoves b piece row col)"

subsection \<open>Attack and check detection\<close>

text \<open>\<open>findKing\<close>: the first square, in loop order, that holds the king's string.\<close>

fun findKingIn :: "square list \<Rightarrow> board \<Rightarrow> string \<Rightarrow> error + square option" where
  "findKingIn [] b kingPiece = Inr None"
| "findKingIn (sq # sqs) b kingPiece =
     bindE (cellAt b (fst sq) (snd sq)) (\<lambda>x.
       if x = kingPiece then Inr (Some sq) else findKingIn sqs b kingPiece)"

definition kingPiece :: "bool \<Rightarrow> string" where
  "kingPiece isWhite = (if isWhite then ''wK'' else ''bK'')"

definition findKing :: "board \<Rightarrow> bool \<Rightarrow> error + square option" where
  "findKing b isWhite = findKingIn allSquares b (kingPiece isWhite)"

text \<open>
  \<open>isSquareUnderAttack\<close>: the nested loops with their early \<open>return true\<close>, over the
  squares still to visit.
\<close>

fun attackScan :: "square list \<Rightarrow> int \<Rightarrow> int \<Rightarrow> board \<Rightarrow> bool \<Rightarrow> error + bool" where
  "attackScan [] row col b byWhite = Inr False"
| "attackScan (sq # sqs) row col b byWhite =
     bindE (cellAt b (fst sq) (snd sq)) (\<lambda>piece.
       if piece = [] then attackScan sqs row col b byWhite
       else if (charAt piece 0 = ''w'') = byWhite then
         bindE (getRawPossibleMoves (fst sq) (snd sq) b) (\<lambda>moves.
           if (row, col) \<in> set moves then Inr True
           else attackScan sqs row col b byWhite)
       else attackScan sqs row col b byWhite)"

definition isSquareUnderAttack :: "int \<Rightarrow> int \<Rightarrow> board \<Rightarrow> bool \<Rightarrow> error + bool" where
  "isSquareUnderAttack row col b byWhite = attackScan allSquares row col b byWhite"

definition isKingInCheck :: "board \<Rightarrow> bool \<Rightarrow> error + bool" where
  "isKingInCheck b isWhiteKing =
     bindE (findKing b isWhiteKing) (\<lambda>kingPos.
       case kingPos of
         None \<Rightarrow> Inr False
       | Some k \<Rightarrow> isSquareUnderAttack (fst k) (snd k) b (\<not> isWhiteKing))"

subsection \<open>Legal moves (\<open>getPossibleMoves\<close>)\<close>

text \<open>The short-circuit \<open>&&\<close> and \<open>!\<close> on conditions that may raise.\<close>

definition andE :: "error + bool \<Rightarrow> error + bool \<Rightarrow> error + bool" where
  "andE p q = bindE p (\<lambda>x. if x then q else Inr False)"

definition notE :: "error + bool \<Rightarrow> error + bool" where
  "notE p = bindE p (\<lambda>x. Inr (\<not> x))"

definition isEmptyAt :: "board \<Rightarrow> int \<Rightarrow> int \<Rightarrow> error + bool" where
  "isEmptyAt b r c = bindE (cellAt b r c) (\<lambda>x. Inr (x = []))"

definition holdsAt :: "board \<Rightarrow> int \<Rightarrow> int \<Rightarrow> string \<Rightarrow> error + bool" where
  "holdsAt b r c s = bindE (cellAt b r c) (\<lambda>x. Inr (x = s))"

definition whiteKingsideOK :: "board \<Rightarrow> GameState \<Rightarrow> error + bool" where
  "whiteKingsideOK b gs =
     andE (Inr (canWhiteCastleKingside gs))
    (andE (isEmptyAt b 7 5) (andE (isEmptyAt b 7 6)
    (andE (holdsAt b 7 7 ''wR'')
    (andE (notE (isKingInCheck b True))
    (andE (notE (isSquareUnderAttack 7 5 b False))
          (notE (isSquareUnderAttack 7 6 b False)))))))"

definition whiteQueensideOK :: "board \<Rightarrow> GameState \<Rightarrow> error + bool" where
  "whiteQueensideOK b gs =
     andE (Inr (canWhiteCastleQueenside gs))
    (andE (isEmptyAt b 7 1) (andE (isEmptyAt b 7 2) (andE (isEmptyAt b 7 3)
    (andE (holdsAt b 7 0 ''wR'')
    (andE (notE (isKingInCheck b True))
    (andE (notE (isSquareUnderAttack 7 2 b False))
          (notE (isSquareUnderAttack 7 3 b False))))))))"

definition blackKingsideOK :: "board \<Rightarrow> GameState \<Rightarrow> error + bool" where
  "blackKingsideOK b gs =
     andE (Inr (canBlackCastleKingside gs))
    (andE (isEmptyAt b 0 5) (andE (isEmptyAt b 0 6)
    (andE (holdsAt b 0 7 ''bR'')
    (andE (notE (isKingInCheck b False))
    (andE (notE (isSquareUnderAttack 0 5 b True))
          (notE (isSquareUnderAttack 0 6 b True)))))))"

definition blackQueensideOK :: "board \<Rightarrow> GameState \<Rightarrow> error + bool" where
  "blackQueensideOK b gs =
     andE (Inr (canBlackCastleQueenside gs))
    (andE (isEmptyAt b 0 1) (andE (isEmptyAt b 0 2) (andE (isEmptyAt b 0 3)
    (andE (holdsAt b 0 0 ''bR'')
    (andE (notE (isKingInCheck b False))
    (andE (notE (isSquareUnderAttack 0 2 b True))
          (notE (isSquareUnderAttack 0 3 b True))))))))"

text \<open>The castling destinations pushed after the raw moves when the piece is a king.\<close>

definition castlingMoves :: "board \<Rightarrow> GameState \<Rightarrow> bool \<Rightarrow> error + square list" where
  "castlingMoves b gs isWhite =
     (if isWhite then
        bindE (whiteKingsideOK b gs) (\<lambda>k.
          bindE (whiteQueensideOK b gs) (\<lambda>q.
            Inr ((if k then [(7, 6)] else []) @ (if q then [(7, 2)] else []))))
      else
        bindE (blackKingsideOK b gs) (\<lambda>k.
          bindE (blackQueensideOK b gs) (\<lambda>q.
            Inr ((if k then [(0, 6)] else []) @ (if q then [(0, 2)] else [])))))"

text \<open>
  The test board of one candidate: \<open>board.map(row => [...row])\<close> copies every row, then the
  destination receives the cell of the origin and the origin is cleared.
\<close>

definition testBoard :: "board \<Rightarrow> int \<Rightarrow> int \<Rightarrow> square \<Rightarrow> error + board" where
  "testBoard b row col move =
     bindE (cellAt b row col) (\<lambda>p.
       bindE (setCell b (fst move) (snd move) p) (\<lambda>t.
         setCell t row col []))"

text \<open>The filter loop \<open>for (const move of possibleMoves)\<close>.\<close>

fun filterMoves :: "square list \<Rightarrow> int \<Rightarrow> int \<Rightarrow> board \<Rightarrow> bool \<Rightarrow> error + square list" where
  "filterMoves [] row col b isWhite = Inr []"
| "filterMoves (move # rest) row col b isWhite =
     bindE (testBoard b row col move) (\<lambda>t.
       bindE (isKingInCheck t isWhite) (\<lambda>inCheck.
         bindE (filterMoves rest row col b isWhite) (\<lambda>valid.
           Inr (if \<not> inCheck then move # valid else valid))))"

definition getPossibleMoves :: "int \<Rightarrow> int \<Rightarrow> board \<Rightarrow> GameState \<Rightarrow> error + square list" where
  "getPossibleMoves row col b gameState =
     bindE (cellAt b row col) (\<lambda>piece.
       if piece = [] then Inr []
       else
         (let isWhite = (charAt piece 0 = ''w''); pieceType = charAt piece 1 in
          bindE (getRawPossibleMoves row col b) (\<lambda>raw.
            bindE (if pieceType = ''K'' then castlingMoves b gameState isWhite else Inr [])
              (\<lambda>castle. filterMoves (raw @ castle) row col b isWhite))))"

subsection \<open>Applying a move\<close>

text \<open>\<open>board[r][c1] = board[r][c2]; board[r][c2] = ''\<close>: the rook's part of castling.\<close>

definition moveRook :: "board \<Rightarrow> int \<Rightarrow> int \<Rightarrow> int \<Rightarrow> error + board" where
  "moveRook b r cTo cFrom =
     bindE (cellAt b r cFrom) (\<lambda>x.
       bindE (setCell b r cTo x) (\<lambda>b1. setCell b1 r cFrom []))"

text \<open>
  The first block of \<open>updateGameState\<close>: a moving king loses both rights of its colour, and a
  king leaving its home square for column 6 or 2 takes the rook along (the board is mutated).
\<close>

definition kingMoved ::
    "string \<Rightarrow> int \<Rightarrow> int \<Rightarrow> int \<Rightarrow> board \<Rightarrow> GameState \<Rightarrow> error + (board \<times> GameState)" where
  "kingMoved piece fromRow fromCol toCol b g =
     (if piece = ''wK'' then
        bindE
          (if fromRow = 7 \<and> fromCol = 4 then
             (if toCol = 6 then moveRook b 7 5 7
              else if toCol = 2 then moveRook b 7 3 0 else Inr b)
           else Inr b)
          (\<lambda>b1. Inr (b1, g\<lparr>canWhiteCastleKingside := False, canWhiteCastleQueenside := False\<rparr>))
      else if piece = ''bK'' then
        bindE
          (if fromRow = 0 \<and> fromCol = 4 then
             (if toCol = 6 then moveRook b 0 5 7
              else if toCol = 2 then moveRook b 0 3 0 else Inr b)
           else Inr b)
          (\<lambda>b1. Inr (b1, g\<lparr>canBlackCastleKingside := False, canBlackCastleQueenside := False\<rparr>))
      else Inr (b, g))"

text \<open>
  The second and third blocks are the same text, once on the moving piece and its origin
  (a rook leaves its home corner), once on the target piece and the destination (a rook is
  captured on its home corner).
\<close>

definition rookGone :: "string \<Rightarrow> int \<Rightarrow> int \<Rightarrow> GameState \<Rightarrow> GameState" where
  "rookGone piece r c g =
     (if piece = ''wR'' then
        (if r = 7 \<and> c = 0 then g\<lparr>canWhiteCastleQueenside := False\<rparr>
         else if r = 7 \<and> c = 7 then g\<lparr>canWhiteCastleKingside := False\<rparr>
         else g)
      else if piece = ''bR'' then
        (if r = 0 \<and> c = 0 then g\<lparr>canBlackCastleQueenside := False\<rparr>
         else if r = 0 \<and> c = 7 then g\<lparr>canBlackCastleKingside := False\<rparr>
         else g)
      else g)"

text \<open>
  \<open>updateGameState\<close> mutates the board it is given (the castling rook) and returns a fresh
  rights record; the model returns both. The target piece is read after the rook has moved.
\<close>

definition updateGameState ::
    "int \<Rightarrow> int \<Rightarrow> int \<Rightarrow> int \<Rightarrow> board \<Rightarrow> GameState \<Rightarrow> error + (board \<times> GameState)" where
  "updateGameState fromRow fromCol toRow toCol b gameState =
     bindE (cellAt b fromRow fromCol) (\<lambda>piece.
       bindE (kingMoved piece fromRow fromCol toCol b gameState) (\<lambda>(b1, g1).
         bindE (cellAt b1 toRow toCol) (\<lambda>targetPiece.
           Inr (b1, rookGone targetPiece toRow toCol (rookGone piece fromRow fromCol g1)))))"

definition canPromotePawn :: "int \<Rightarrow> int \<Rightarrow> board \<Rightarrow> error + bool" where
  "canPromotePawn row col b =
     bindE (cellAt b row col) (\<lambda>piece.
       if piece = [] \<or> charAt piece 1 \<noteq> ''P'' then Inr False
       else Inr ((charAt piece 0 = ''w'' \<and> row = 0) \<or> (charAt piece 0 = ''b'' \<and> row = 7)))"

text \<open>\<open>promotePawn\<close> mutates the board in place; the model returns the board after the call.\<close>

definition promotePawn :: "int \<Rightarrow> int \<Rightarrow> board \<Rightarrow> string \<Rightarrow> error + board" where
  "promotePawn row col b newPiece =
     bindE (cellAt b row col) (\<lambda>piece.
       if piece = [] \<or> charAt piece 1 \<noteq> ''P'' then Inr b
       else setCell b row col (charAt piece 0 @ newPiece))"

text \<open>
  The move as the callers apply it (\<open>makeComputerMove\<close>, and the click handler of the game
  component): \<open>updateGameState\<close>, then the destination receives the moving piece and the
  origin is cleared.
\<close>

definition applyMove ::
    "int \<Rightarrow> int \<Rightarrow> int \<Rightarrow> int \<Rightarrow> string \<Rightarrow> board \<Rightarrow> GameState \<Rightarrow> error + (board \<times> GameState)" where
  "applyMove fromRow fromCol toRow toCol movingPiece b gameState =
     bindE (updateGameState fromRow fromCol toRow toCol b gameState) (\<lambda>(b1, g1).
       bindE (setCell b1 toRow toCol movingPiece) (\<lambda>b2.
         bindE (setCell b2 fromRow fromCol []) (\<lambda>b3. Inr (b3, g1))))"

subsection \<open>The computer's move (\<open>makeComputerMove\<close>)\<close>

text \<open>The scan that collects every black piece with at least one legal move.\<close>

fun collectBlack ::
    "square list \<Rightarrow> board \<Rightarrow> GameState \<Rightarrow> error + (int \<times> int \<times> string \<times> square list) list" where
  "collectBlack [] b gameState = Inr []"
| "collectBlack (sq # sqs) b gameState =
     bindE (cellAt b (fst sq) (snd sq)) (\<lambda>piece.
       if piece \<noteq> [] \<and> charAt piece 0 = ''b'' then
         bindE (getPossibleMoves (fst sq) (snd sq) b gameState) (\<lambda>moves.
           bindE (collectBlack sqs b gameState) (\<lambda>others.
             Inr (if length moves > 0 then (fst sq, snd sq, piece, moves) # others
                  else others)))
       else collectBlack sqs b gameState)"

text \<open>
  \<open>Math.floor(Math.random() * n)\<close> for a draw \<open>u\<close> of \<open>Math.random()\<close>, which lies in
  \<open>[0, 1)\<close>; the two draws are parameters of the model.
\<close>

definition randomIndex :: "real \<Rightarrow> nat \<Rightarrow> nat" where
  "randomIndex u n = nat \<lfloor>u * real n\<rfloor>"

definition makeComputerMove ::
    "board \<Rightarrow> GameState \<Rightarrow> real \<Rightarrow> real \<Rightarrow> error + (board \<times> GameState)" where
  "makeComputerMove b gameState u1 u2 =
     bindE (collectBlack allSquares b gameState) (\<lambda>blackPieces.
       if length blackPieces > 0 then
         (case blackPieces ! randomIndex u1 (length blackPieces) of
            (selRow, selCol, selPiece, selMoves) \<Rightarrow>
              (let targetMove = selMoves ! randomIndex u2 (length selMoves) in
               bindE (applyMove selRow selCol (fst targetMove) (snd targetMove)
                        selPiece b gameState) (\<lambda>(newBoard, newGameState).
                 bindE (canPromotePawn (fst targetMove) (snd targetMove) newBoard) (\<lambda>promo.
                   if promo then
                     bindE (promotePawn (fst targetMove) (snd targetMove) newBoard ''Q'')
                       (\<lambda>promoted. Inr (promoted, newGameState))
                   else Inr (newBoard, newGameState)))))
       else Inr (b, gameState))"

subsection \<open>The engine on a heap of arrays and objects\<close>

text \<open>
  The functions above pass boards as values. JavaScript passes references: a board is an
  array of references to row arrays, and \<open>updateGameState\<close>, \<open>promotePawn\<close>, the filter loop
  and \<open>makeComputerMove\<close> assign to cells of arrays they were given or have made. To state
  what a call leaves untouched, the mutating functions are modelled once more on an
  explicit heap: a list of objects, an address being an index, a new object being appended.
  Functions that assign to no cell (\<open>getRawPossibleMoves\<close>, \<open>isSquareUnderAttack\<close>,
  \<open>isKingInCheck\<close>, \<open>canPromotePawn\<close>, the castling conditions) read the board the address
  denotes and are the functions above. An address that does not hold an object of the
  expected kind cannot reach a typed caller; the model raises for it.
\<close>

datatype obj = Cells "string list" | Rows "nat list" | Rights GameState

type_synonym heap = "obj list"

definition cellsAt :: "heap \<Rightarrow> nat \<Rightarrow> string list option" where
  "cellsAt h a =
     (if a < length h then (case h ! a of Cells cs \<Rightarrow> Some cs | _ \<Rightarrow> None) else None)"

definition rowsAt :: "heap \<Rightarrow> nat \<Rightarrow> nat list option" where
  "rowsAt h a =
     (if a < length h then (case h ! a of Rows rs \<Rightarrow> Some rs | _ \<Rightarrow> None) else None)"

definition rightsAt :: "heap \<Rightarrow> nat \<Rightarrow> GameState option" where
  "rightsAt h a =
     (if a < length h then (case h ! a of Rights g \<Rightarrow> Some g | _ \<Rightarrow> None) else None)"

text \<open>The rows behind a list of row addresses, and the board an address denotes.\<close>

fun rowsOf :: "heap \<Rightarrow> nat list \<Rightarrow> board option" where
  "rowsOf h [] = Some []"
| "rowsOf h (ra # ras) =
     (case cellsAt h ra of
        None \<Rightarrow> None
      | Some cs \<Rightarrow> (case rowsOf h ras of None \<Rightarrow> None | Some rest \<Rightarrow> Some (cs # rest)))"

definition boardAt :: "heap \<Rightarrow> nat \<Rightarrow> board option" where
  "boardAt h a = (case rowsAt h a of None \<Rightarrow> None | Some rs \<Rightarrow> rowsOf h rs)"

text \<open>Running a function that only reads on the board at an address.\<close>

definition withBoard :: "heap \<Rightarrow> nat \<Rightarrow> (board \<Rightarrow> error + 'a) \<Rightarrow> error + 'a" where
  "withBoard h a f = (case boardAt h a of None \<Rightarrow> Inl TypeError | Some b \<Rightarrow> f b)"

definition alloc :: "heap \<Rightarrow> obj \<Rightarrow> heap \<times> nat" where
  "alloc h x = (h @ [x], length h)"

text \<open>\<open>board.map(row => [...row])\<close>: a new array for every row, then a new array of them.\<close>

fun copyRows :: "heap \<Rightarrow> nat list \<Rightarrow> error + (heap \<times> nat list)" where
  "copyRows h [] = Inr (h, [])"
| "copyRows h (ra # ras) =
     (case cellsAt h ra of
        None \<Rightarrow> Inl TypeError
      | Some cs \<Rightarrow>
          (case alloc h (Cells cs) of
             (h1, a1) \<Rightarrow> bindE (copyRows h1 ras) (\<lambda>(h2, as). Inr (h2, a1 # as))))"

definition mapCopy :: "heap \<Rightarrow> nat \<Rightarrow> error + (heap \<times> nat)" where
  "mapCopy h a =
     (case rowsAt h a of
        None \<Rightarrow> Inl TypeError
      | Some rs \<Rightarrow> bindE (copyRows h rs) (\<lambda>(h1, as). Inr (alloc h1 (Rows as))))"

text \<open>\<open>[...xs]\<close> on an array of rows: a new outer array holding the same row references.\<close>

definition spread :: "heap \<Rightarrow> nat \<Rightarrow> error + (heap \<times> nat)" where
  "spread h a =
     (case rowsAt h a of None \<Rightarrow> Inl TypeError | Some rs \<Rightarrow> Inr (alloc h (Rows rs)))"

text \<open>\<open>board[r][c] = v\<close> through the reference: the row array itself is changed.\<close>

definition writeCell :: "heap \<Rightarrow> nat \<Rightarrow> int \<Rightarrow> int \<Rightarrow> string \<Rightarrow> error + heap" where
  "writeCell h a r c v =
     (case rowsAt h a of
        None \<Rightarrow> Inl TypeError
      | Some rs \<Rightarrow>
          if 0 \<le> r \<and> r < int (length rs) then
            (case cellsAt h (rs ! nat r) of
               None \<Rightarrow> Inl TypeError
             | Some cs \<Rightarrow> Inr (h[rs ! nat r := Cells (setSlot cs c v)]))
          else Inl TypeError)"

text \<open>An assignment to fields of the rights object at an address.\<close>

definition updRights :: "heap \<Rightarrow> nat \<Rightarrow> (GameState \<Rightarrow> GameState) \<Rightarrow> heap" where
  "updRights h a f = (case rightsAt h a of None \<Rightarrow> h | Some g \<Rightarrow> h[a := Rights (f g)])"

definition moveRookH :: "heap \<Rightarrow> nat \<Rightarrow> int \<Rightarrow> int \<Rightarrow> int \<Rightarrow> error + heap" where
  "moveRookH h ba r cTo cFrom =
     bindE (withBoard h ba (\<lambda>b. cellAt b r cFrom)) (\<lambda>x.
       bindE (writeCell h ba r cTo x) (\<lambda>h1. writeCell h1 ba r cFrom []))"

definition kingMovedH ::
    "string \<Rightarrow> int \<Rightarrow> int \<Rightarrow> int \<Rightarrow> heap \<Rightarrow> nat \<Rightarrow> nat \<Rightarrow> error + heap" where
  "kingMovedH piece fromRow fromCol toCol h ba na =
     (if piece = ''wK'' then
        (case updRights h na (\<lambda>g. g\<lparr>canWhiteCastleKingside := False,
                                     canWhiteCastleQueenside := False\<rparr>) of
           h1 \<Rightarrow>
             if fromRow = 7 \<and> fromCol = 4 then
               (if toCol = 6 then moveRookH h1 ba 7 5 7
                else if toCol = 2 then moveRookH h1 ba 7 3 0 else Inr h1)
             else Inr h1)
      else if piece = ''bK'' then
        (case updRights h na (\<lambda>g. g\<lparr>canBlackCastleKingside := False,
                                     canBlackCastleQueenside := False\<rparr>) of
           h1 \<Rightarrow>
             if fromRow = 0 \<and> fromCol = 4 then
               (if toCol = 6 then moveRookH h1 ba 0 5 7
                else if toCol = 2 then moveRookH h1 ba 0 3 0 else Inr h1)
             else Inr h1)
      else Inr h)"

text \<open>
  \<open>updateGameState\<close>: \<open>{ ...gameState }\<close> makes the new rights object, every later
  assignment goes to it or to the board passed in; the address of the new object is returned.
\<close>

definition updateGameStateH ::
    "int \<Rightarrow> int \<Rightarrow> int \<Rightarrow> int \<Rightarrow> heap \<Rightarrow> nat \<Rightarrow> nat \<Rightarrow> error + (heap \<times> nat)" where
  "updateGameStateH fromRow fromCol toRow toCol h ba ga =
     (case rightsAt h ga of
        None \<Rightarrow> Inl TypeError
      | Some g \<Rightarrow>
          (case alloc h (Rights g) of
             (h0, na) \<Rightarrow>
               bindE (withBoard h0 ba (\<lambda>b. cellAt b fromRow fromCol)) (\<lambda>piece.
                 bindE (kingMovedH piece fromRow fromCol toCol h0 ba na) (\<lambda>h1.
                   bindE (withBoard h1 ba (\<lambda>b. cellAt b toRow toCol)) (\<lambda>targetPiece.
                     Inr (updRights h1 na
                            (\<lambda>g1. rookGone targetPiece toRow toCol
                                     (rookGone piece fromRow fromCol g1)),
                          na))))))"

definition promotePawnH :: "int \<Rightarrow> int \<Rightarrow> heap \<Rightarrow> nat \<Rightarrow> string \<Rightarrow> error + heap" where
  "promotePawnH row col h ba newPiece =
     bindE (withBoard h ba (\<lambda>b. cellAt b row col)) (\<lambda>piece.
       if piece = [] \<or> charAt piece 1 \<noteq> ''P'' then Inr h
       else writeCell h ba row col (charAt piece 0 @ newPiece))"

text \<open>The filter loop: each candidate gets its own copy of the board, and only it is written.\<close>

fun filterMovesH ::
    "square list \<Rightarrow> int \<Rightarrow> int \<Rightarrow> heap \<Rightarrow> nat \<Rightarrow> bool \<Rightarrow> error + (heap \<times> square list)" where
  "filterMovesH [] row col h ba isWhite = Inr (h, [])"
| "filterMovesH (move # rest) row col h ba isWhite =
     bindE (mapCopy h ba) (\<lambda>(h1, ta).
       bindE (withBoard h1 ta (\<lambda>t. cellAt t row col)) (\<lambda>p.
         bindE (writeCell h1 ta (fst move) (snd move) p) (\<lambda>h2.
           bindE (writeCell h2 ta row col []) (\<lambda>h3.
             bindE (withBoard h3 ta (\<lambda>t. isKingInCheck t isWhite)) (\<lambda>inCheck.
               bindE (filterMovesH rest row col h3 ba isWhite) (\<lambda>(h4, valid).
                 Inr (h4, if \<not> inCheck then move # valid else valid)))))))"

definition getPossibleMovesH ::
    "int \<Rightarrow> int \<Rightarrow> heap \<Rightarrow> nat \<Rightarrow> nat \<Rightarrow> error + (heap \<times> square list)" where
  "getPossibleMovesH row col h ba ga =
     bindE (withBoard h ba (\<lambda>b. cellAt b row col)) (\<lambda>piece.
       if piece = [] then Inr (h, [])
       else
         (let isWhite = (charAt piece 0 = ''w''); pieceType = charAt piece 1 in
          bindE (withBoard h ba (getRawPossibleMoves row col)) (\<lambda>raw.
            bindE (if pieceType = ''K'' then
                     (case rightsAt h ga of
                        None \<Rightarrow> Inl TypeError
                      | Some g \<Rightarrow> withBoard h ba (\<lambda>b. castlingMoves b g isWhite))
                   else Inr [])
              (\<lambda>castle. filterMovesH (raw @ castle) row col h ba isWhite))))"

fun collectBlackH ::
    "square list \<Rightarrow> heap \<Rightarrow> nat \<Rightarrow> nat \<Rightarrow>
     error + (heap \<times> (int \<times> int \<times> string \<times> square list) list)" where
  "collectBlackH [] h ba ga = Inr (h, [])"
| "collectBlackH (sq # sqs) h ba ga =
     bindE (withBoard h ba (\<lambda>b. cellAt b (fst sq) (snd sq))) (\<lambda>piece.
       if piece \<noteq> [] \<and> charAt piece 0 = ''b'' then
         bindE (getPossibleMovesH (fst sq) (snd sq) h ba ga) (\<lambda>(h1, moves).
           bindE (collectBlackH sqs h1 ba ga) (\<lambda>(h2, others).
             Inr (h2, if length moves > 0 then (fst sq, snd sq, piece, moves) # others
                      else others)))
       else collectBlackH sqs h ba ga)"

text \<open>
  \<open>makeComputerMove\<close> on the heap: \<open>board\<close> and \<open>gameState\<close> are the addresses passed in,
  \<open>newBoard\<close> is \<open>[...board.map(row => [...row])]\<close> and \<open>newGameState\<close> is \<open>{ ...gameState }\<close>.
  The result is the final heap with the addresses of the returned board and rights.
  \<open>applySelectedH\<close> is the body of \<open>if (blackPieces.length > 0)\<close> after the two draws.
\<close>

definition applySelectedH ::
    "heap \<Rightarrow> nat \<Rightarrow> nat \<Rightarrow> int \<Rightarrow> int \<Rightarrow> string \<Rightarrow> square \<Rightarrow> error + (heap \<times> nat \<times> nat)" where
  "applySelectedH h newBoard newGameState selRow selCol selPiece targetMove =
     bindE (updateGameStateH selRow selCol (fst targetMove) (snd targetMove)
              h newBoard newGameState) (\<lambda>(h5, updated).
     bindE (writeCell h5 newBoard (fst targetMove) (snd targetMove) selPiece) (\<lambda>h6.
     bindE (writeCell h6 newBoard selRow selCol []) (\<lambda>h7.
     bindE (withBoard h7 newBoard (canPromotePawn (fst targetMove) (snd targetMove)))
       (\<lambda>promo.
         if promo then
           bindE (promotePawnH (fst targetMove) (snd targetMove) h7 newBoard ''Q'')
             (\<lambda>h8. Inr (h8, newBoard, updated))
         else Inr (h7, newBoard, updated)))))"

definition makeComputerMoveH ::
    "heap \<Rightarrow> nat \<Rightarrow> nat \<Rightarrow> real \<Rightarrow> real \<Rightarrow> error + (heap \<times> nat \<times> nat)" where
  "makeComputerMoveH h board gameState u1 u2 =
     bindE (mapCopy h board) (\<lambda>(h1, mapped).
     bindE (spread h1 mapped) (\<lambda>(h2, newBoard).
       (case rightsAt h2 gameState of
          None \<Rightarrow> Inl TypeError
        | Some g \<Rightarrow>
            (case alloc h2 (Rights g) of
               (h3, newGameState) \<Rightarrow>
                 bindE (collectBlackH allSquares h3 board gameState) (\<lambda>(h4, blackPieces).
                   if length blackPieces > 0 then
                     (case blackPieces ! randomIndex u1 (length blackPieces) of
                        (selRow, selCol, selPiece, selMoves) \<Rightarrow>
                          applySelectedH h4 newBoard newGameState selRow selCol selPiece
                            (selMoves ! randomIndex u2 (length selMoves)))
                   else Inr (h4, newBoard, newGameState))))))"

text \<open>A heap holding one board and one rights record, each row in an array of its own.\<close>

definition heapOf :: "board \<Rightarrow> GameState \<Rightarrow> heap" where
  "heapOf b g = map Cells b @ [Rows [0..<length b], Rights g]"

subsection \<open>Notions used to state the properties\<close>

text \<open>A square of the 8 by 8 board.\<close>

definition onBoard :: "square \<Rightarrow> bool" where
  "onBoard sq = (0 \<le> fst sq \<and> fst sq < 8 \<and> 0 \<le> snd sq \<and> snd sq < 8)"

text \<open>No right is set in \<open>g'\<close> that is not set in \<open>g\<close>.\<close>

definition rightsLE :: "GameState \<Rightarrow> GameState \<Rightarrow> bool" where
  "rightsLE g' g =
     ((canWhiteCastleKingside g' \<longrightarrow> canWhiteCastleKingside g) \<and>
      (canWhiteCastleQueenside g' \<longrightarrow> canWhiteCastleQueenside g) \<and>
      (canBlackCastleKingside g' \<longrightarrow> canBlackCastleKingside g) \<and>
      (canBlackCastleQueenside g' \<longrightarrow> canBlackCastleQueenside g))"

text \<open>
  A sequence of \<open>updateGameState\<close> calls, each on the board of its moment (the boards between
  two calls are unrelated here: the caller changes them), threading the rights record.
\<close>

fun runUpdates ::
    "(int \<times> int \<times> int \<times> int \<times> board) list \<Rightarrow> GameState \<Rightarrow> error + GameState" where
  "runUpdates [] g = Inr g"
| "runUpdates ((fromRow, fromCol, toRow, toCol, b) # calls) g =
     bindE (updateGameState fromRow fromCol toRow toCol b g) (\<lambda>(b1, g1). runUpdates calls g1)"

text \<open>Example positions.\<close>

definition emptyRow :: "string list" where
  "emptyRow = ['''', '''', '''', '''', '''', '''', '''', '''']"

text \<open>Kings and rooks on their home squares, nothing else.\<close>

definition castleBoard :: board where
  "castleBoard =
     [[''bR'', '''', '''', '''', ''bK'', '''', '''', ''bR''],
      emptyRow, emptyRow, emptyRow, emptyRow, emptyRow, emptyRow,
      [''wR'', '''', '''', '''', ''wK'', '''', '''', ''wR'']]"

text \<open>White may castle kingside by every listed condition, but a black pawn stands on (6,7).\<close>

definition pawnGuardBoard :: board where
  "pawnGuardBoard =
     [[''bK'', '''', '''', '''', '''', '''', '''', ''''],
      emptyRow, emptyRow, emptyRow, emptyRow, emptyRow,
      ['''', '''', '''', '''', '''', '''', '''', ''bP''],
      ['''', '''', '''', '''', ''wK'', '''', '''', ''wR'']]"

text \<open>A white pawn that has reached row 0 and is not promoted yet.\<close>

definition farRankBoard :: board where
  "farRankBoard =
     [[''wP'', '''', '''', '''', ''bK'', '''', '''', ''''],
      emptyRow, emptyRow, emptyRow, emptyRow, emptyRow, emptyRow,
      ['''', '''', '''', '''', ''wK'', '''', '''', '''']]"

text \<open>A board without a white king, the black queen looking down the e-file.\<close>

definition noWhiteKingBoard :: board where
  "noWhiteKingBoard =
     [[''bK'', '''', '''', '''', ''bQ'', '''', '''', ''''],
      emptyRow, emptyRow, emptyRow, emptyRow, emptyRow, emptyRow,
      ['''', '''', '''', '''', ''wQ'', '''', '''', '''']]"

text \<open>
  Two boards that differ by a castling rook: on \<open>T\<close> the piece \<open>x\<close> stands on the corner
  \<open>s1\<close> and \<open>s2\<close> is empty, on \<open>A\<close> it stands on \<open>s2\<close> and \<open>s1\<close> is empty.
\<close>

definition corner :: "square \<Rightarrow> bool" where
  "corner s = ((fst s = 0 \<or> fst s = 7) \<and> (snd s = 0 \<or> snd s = 7))"

definition rookShift :: "board \<Rightarrow> board \<Rightarrow> square \<Rightarrow> square \<Rightarrow> string \<Rightarrow> bool" where
  "rookShift T A s1 s2 x =
     (length T = 8 \<and> length A = 8 \<and> corner s1 \<and> x \<noteq> [] \<and>
      cellAt T (fst s1) (snd s1) = Inr x \<and> cellAt A (fst s1) (snd s1) = Inr [] \<and>
      cellAt T (fst s2) (snd s2) = Inr [] \<and> cellAt A (fst s2) (snd s2) = Inr x \<and>
      (\<forall>r c. (r, c) \<noteq> s1 \<and> (r, c) \<noteq> s2 \<longrightarrow> cellAt A r c = cellAt T r c))"

text \<open>
  The square can be read and, if it holds a black piece, that piece has no legal move.
\<close>

definition blackCannotMove :: "board \<Rightarrow> GameState \<Rightarrow> square \<Rightarrow> bool" where
  "blackCannotMove b g sq =
     (case cellAt b (fst sq) (snd sq) of
        Inl e \<Rightarrow> False
      | Inr q \<Rightarrow> q \<noteq> [] \<and> charAt q 0 = ''b'' \<longrightarrow>
                 getPossibleMoves (fst sq) (snd sq) b g = Inr [])"

text \<open>
  Black's king is boxed in by the white queen; the only legal black move is the pawn's step
  from (6,7) to (7,7).
\<close>

definition promoBoard :: board where
  "promoBoard =
     [[''bK'', '''', '''', '''', '''', '''', '''', ''''],
      emptyRow,
      ['''', ''wQ'', '''', '''', '''', '''', '''', ''''],
      emptyRow, emptyRow, emptyRow,
      ['''', '''', '''', '''', '''', '''', '''', ''bP''],
      ['''', '''', '''', '''', ''wK'', '''', '''', '''']]"

definition promotedBoard :: board where
  "promotedBoard =
     [[''bK'', '''', '''', '''', '''', '''', '''', ''''],
      emptyRow,
      ['''', ''wQ'', '''', '''', '''', '''', '''', ''''],
      emptyRow, emptyRow, emptyRow,
      emptyRow,
      ['''', '''', '''', '''', ''wK'', '''', '''', ''bQ'']]"

text \<open>
  The heap \<open>h'\<close> extends \<open>h\<close> and agrees with it below address \<open>n\<close>; no array of rows has
  changed. The board at \<open>a\<close> consists of rows made at or after address \<open>n\<close>.
\<close>

definition ext :: "nat \<Rightarrow> heap \<Rightarrow> heap \<Rightarrow> bool" where
  "ext n h h' =
     (n \<le> length h \<and> length h \<le> length h' \<and> take n h' = take n h \<and>
      (\<forall>a rs. rowsAt h a = Some rs \<longrightarrow> rowsAt h' a = Some rs))"

definition freshRows :: "nat \<Rightarrow> heap \<Rightarrow> nat \<Rightarrow> bool" where
  "freshRows n h a = (\<exists>rs. rowsAt h a = Some rs \<and> (\<forall>ra\<in>set rs. n \<le> ra))"

text \<open>The board at \<open>a\<close> has the value \<open>b\<close>, and no two of its rows are the same array.\<close>

definition holds :: "heap \<Rightarrow> nat \<Rightarrow> board \<Rightarrow> bool" where
  "holds h a b = (\<exists>rs. rowsAt h a = Some rs \<and> distinct rs \<and> rowsOf h rs = Some b)"

section \<open>Properties\<close>

subsection \<open>Basic facts\<close>

lemma bindE_Inr [simp]: "bindE (Inr x) f = f x"
  by (simp add: bindE_def)

lemma bindE_Inl [simp]: "bindE (Inl e) f = Inl e"
  by (simp add: bindE_def)

lemma bindE_eq_Inr: "bindE m f = Inr y \<longleftrightarrow> (\<exists>x. m = Inr x \<and> f x = Inr y)"
  by (cases m) simp_all

lemma slot_setSlot: "slot (setSlot xs c v) c' = (if c' = c \<and> 0 \<le> c then v else slot xs c')"
  by (auto simp: slot_def setSlot_def nth_append nth_list_update nat_eq_iff2)

lemma cellAt_setCell:
  "setCell b r c v = Inr b' \<Longrightarrow>
   cellAt b' r' c' = (if r' = r \<and> c' = c \<and> 0 \<le> c then Inr v else cellAt b r' c')"
  by (auto simp: setCell_def cellAt_def slot_setSlot nth_list_update nat_eq_iff2
           split: if_splits)

lemma length_setCell: "setCell b r c v = Inr b' \<Longrightarrow> length b' = length b"
  by (auto simp: setCell_def split: if_splits)

lemma setCell_ok: "0 \<le> r \<Longrightarrow> r < int (length b) \<Longrightarrow> \<exists>b'. setCell b r c v = Inr b'"
  by (simp add: setCell_def)

lemma cellAt_nonempty:
  "cellAt b r c = Inr p \<Longrightarrow> p \<noteq> [] \<Longrightarrow> 0 \<le> c \<and> 0 \<le> r \<and> r < int (length b)"
  by (auto simp: cellAt_def slot_def split: if_splits)

subsection \<open>Castling rights are only ever cleared\<close>

lemma updateGameState_rightsLE:
  assumes "updateGameState fr fc tr tc b g = Inr (b', g')"
  shows "rightsLE g' g"
proof -
  from assms obtain piece b1 g1 tp where
    k: "kingMoved piece fr fc tc b g = Inr (b1, g1)" and
    g': "g' = rookGone tp tr tc (rookGone piece fr fc g1)"
    by (auto simp: updateGameState_def bindE_eq_Inr)
  have "rightsLE g1 g"
    using k by (auto simp: kingMoved_def rightsLE_def bindE_eq_Inr split: if_splits)
  then show ?thesis
    unfolding g' by (simp add: rightsLE_def rookGone_def)
qed

lemma runUpdates_rightsLE: "runUpdates calls g = Inr g' \<Longrightarrow> rightsLE g' g"
proof (induction calls arbitrary: g)
  case Nil
  then show ?case by (simp add: rightsLE_def)
next
  case (Cons call calls)
  obtain fr fc tr tc b where call: "call = (fr, fc, tr, tc, b)"
    by (cases call) auto
  from Cons.prems obtain b1 g1 where
    st: "updateGameState fr fc tr tc b g = Inr (b1, g1)" and
    rest: "runUpdates calls g1 = Inr g'"
    by (auto simp: call bindE_eq_Inr)
  from Cons.IH [OF rest] updateGameState_rightsLE [OF st] show ?case
    by (auto simp: rightsLE_def)
qed

text \<open>
  C3. Whatever the board, the rights and the two squares, a right that is clear in the
  record given to \<open>updateGameState\<close> is clear in the record it returns; and over any
  sequence of calls a right goes from set to clear only, never back.
\<close>

theorem castling_rights_monotone:
  "(updateGameState fromRow fromCol toRow toCol b g = Inr (b', g') \<longrightarrow> rightsLE g' g) \<and>
   (runUpdates calls g = Inr g'' \<longrightarrow> rightsLE g'' g)"
  using updateGameState_rightsLE runUpdates_rightsLE by blast

theorem castling_rights_monotone_witness:
  "updateGameState 7 7 6 7 castleBoard initialGameState =
     Inr (castleBoard, initialGameState\<lparr>canWhiteCastleKingside := False\<rparr>) \<and>
   rightsLE (initialGameState\<lparr>canWhiteCastleKingside := False\<rparr>) initialGameState \<and>
   runUpdates [(7, 7, 6, 7, castleBoard), (0, 4, 1, 4, castleBoard)] initialGameState =
     Inr \<lparr>canWhiteCastleKingside = False, canWhiteCastleQueenside = True,
          canBlackCastleKingside = False, canBlackCastleQueenside = False\<rparr> \<and>
   rightsLE \<lparr>canWhiteCastleKingside = False, canWhiteCastleQueenside = True,
             canBlackCastleKingside = False, canBlackCastleQueenside = False\<rparr>
     initialGameState"
proof -
  have one: "updateGameState 7 7 6 7 castleBoard initialGameState =
      Inr (castleBoard, initialGameState\<lparr>canWhiteCastleKingside := False\<rparr>)"
    by code_simp
  have two: "runUpdates [(7, 7, 6, 7, castleBoard), (0, 4, 1, 4, castleBoard)] initialGameState =
      Inr \<lparr>canWhiteCastleKingside = False, canWhiteCastleQueenside = True,
           canBlackCastleKingside = False, canBlackCastleQueenside = False\<rparr>"
    by code_simp
  from castling_rights_monotone
    [of 7 7 6 7 castleBoard initialGameState castleBoard
        "initialGameState\<lparr>canWhiteCastleKingside := False\<rparr>"
        "[(7, 7, 6, 7, castleBoard), (0, 4, 1, 4, castleBoard)]"
        "\<lparr>canWhiteCastleKingside = False, canWhiteCastleQueenside = True,
          canBlackCastleKingside = False, canBlackCastleQueenside = False\<rparr>"]
    one two
  show ?thesis by blast
qed

subsection \<open>Promotion\<close>

lemma promotePawn_noop:
  "cellAt b row col = Inr piece \<Longrightarrow> piece = [] \<or> charAt piece 1 \<noteq> ''P'' \<Longrightarrow>
   promotePawn row col b newKind = Inr b"
  by (auto simp: promotePawn_def)

lemma promotePawn_pawn:
  assumes "cellAt b row col = Inr piece" "piece \<noteq> []" "charAt piece 1 = ''P''"
  shows "\<exists>b'. promotePawn row col b newKind = Inr b' \<and>
           cellAt b' row col = Inr (charAt piece 0 @ newKind) \<and>
           (\<forall>r c. (r, c) \<noteq> (row, col) \<longrightarrow> cellAt b' r c = cellAt b r c)"
proof -
  from cellAt_nonempty [OF assms(1,2)]
  have rng: "0 \<le> col" "0 \<le> row" "row < int (length b)"
    by auto
  from setCell_ok [OF rng(2,3)] obtain b' where
    s: "setCell b row col (charAt piece 0 @ newKind) = Inr b'" by blast
  have "promotePawn row col b newKind = Inr b'"
    using assms s by (simp add: promotePawn_def)
  moreover have "cellAt b' row col = Inr (charAt piece 0 @ newKind)"
    using cellAt_setCell [OF s] rng by simp
  moreover have "\<forall>r c. (r, c) \<noteq> (row, col) \<longrightarrow> cellAt b' r c = cellAt b r c"
    using cellAt_setCell [OF s] by auto
  ultimately show ?thesis by blast
qed

text \<open>
  C7. For a board, a square of one of its rows and a requested kind: when the cell is empty
  or its piece is not a pawn, \<open>promotePawn\<close> returns the board as it was; when the cell holds
  a pawn, the cell becomes the pawn's colour followed by the requested kind and every other
  cell reads as before.
\<close>

theorem promotePawn_spec:
  assumes "cellAt b row col = Inr piece"
  shows "(piece = [] \<or> charAt piece 1 \<noteq> ''P'' \<longrightarrow> promotePawn row col b newKind = Inr b) \<and>
         (piece \<noteq> [] \<and> charAt piece 1 = ''P'' \<longrightarrow>
            (\<exists>b'. promotePawn row col b newKind = Inr b' \<and>
                  cellAt b' row col = Inr (charAt piece 0 @ newKind) \<and>
                  (\<forall>r c. (r, c) \<noteq> (row, col) \<longrightarrow> cellAt b' r c = cellAt b r c)))"
  using promotePawn_noop [OF assms] promotePawn_pawn [OF assms] by blast

theorem promotePawn_spec_witness:
  "cellAt farRankBoard 0 0 = Inr ''wP'' \<and>
   (\<exists>b'. promotePawn 0 0 farRankBoard ''N'' = Inr b' \<and>
         cellAt b' 0 0 = Inr ''wN'' \<and> cellAt b' 7 4 = cellAt farRankBoard 7 4) \<and>
   cellAt farRankBoard 7 4 = Inr ''wK'' \<and>
   promotePawn 7 4 farRankBoard ''N'' = Inr farRankBoard"
proof -
  have p: "cellAt farRankBoard 0 0 = Inr ''wP''" by code_simp
  have k: "cellAt farRankBoard 7 4 = Inr ''wK''" by code_simp
  have c: "charAt ''wP'' 1 = ''P''" "charAt ''wP'' 0 = ''w''" "charAt ''wK'' 1 = ''K''"
    by (simp_all add: charAt_def)
  from promotePawn_spec [OF p, of "''N''"] c
  obtain b' where b': "promotePawn 0 0 farRankBoard ''N'' = Inr b'"
      "cellAt b' 0 0 = Inr ''wN''"
      "\<forall>r c. (r, c) \<noteq> (0, 0) \<longrightarrow> cellAt b' r c = cellAt farRankBoard r c"
    by auto
  from b'(3) have "cellAt b' 7 4 = cellAt farRankBoard 7 4" by simp
  moreover from promotePawn_spec [OF k, of "''N''"] c
  have "promotePawn 7 4 farRankBoard ''N'' = Inr farRankBoard" by simp
  ultimately show ?thesis using p k b' by blast
qed

subsection \<open>The rights record matters to kings only\<close>

text \<open>
  C9. For a board and a square of one of its rows whose piece is not a king,
  \<open>getPossibleMoves\<close> returns the same result whatever rights record it is given.
\<close>

theorem getPossibleMoves_rights_irrelevant:
  assumes "cellAt b row col = Inr piece" "charAt piece 1 \<noteq> ''K''"
  shows "getPossibleMoves row col b g1 = getPossibleMoves row col b g2"
  using assms by (simp add: getPossibleMoves_def Let_def)

theorem getPossibleMoves_rights_irrelevant_witness:
  "cellAt castleBoard 7 7 = Inr ''wR'' \<and> charAt ''wR'' 1 \<noteq> ''K'' \<and>
   getPossibleMoves 7 7 castleBoard initialGameState =
   getPossibleMoves 7 7 castleBoard
     \<lparr>canWhiteCastleKingside = False, canWhiteCastleQueenside = False,
      canBlackCastleKingside = False, canBlackCastleQueenside = False\<rparr>"
proof -
  have p: "cellAt castleBoard 7 7 = Inr ''wR''" by code_simp
  have k: "charAt ''wR'' 1 \<noteq> ''K''" by (simp add: charAt_def)
  from getPossibleMoves_rights_irrelevant [OF p k] p k show ?thesis by blast
qed

lemma bindE_Inr_right [simp]: "bindE m Inr = m"
  by (cases m) simp_all

lemma bindE_Inr_right' [simp]: "bindE m (\<lambda>x. Inr x) = m"
  by (cases m) simp_all

subsection \<open>The raw moves by kind of piece\<close>

lemma pieceMoves_by_kind:
  "pieceMoves b piece row col =
     (if charAt piece 1 = ''P'' then pawnMoves b piece row col
      else if charAt piece 1 = ''R'' then slideDirs b piece row col rookDirs
      else if charAt piece 1 = ''N'' then stepMoves b piece row col knightOffsets
      else if charAt piece 1 = ''B'' then slideDirs b piece row col bishopDirs
      else if charAt piece 1 = ''Q'' then
        bindE (slideDirs b piece row col rookDirs) (\<lambda>m2.
          bindE (slideDirs b piece row col bishopDirs) (\<lambda>m4. Inr (m2 @ m4)))
      else if charAt piece 1 = ''K'' then stepMoves b piece row col kingOffsets
      else Inr [])"
  by (simp add: pieceMoves_def Let_def)

lemma pieceMoves_P:
  "charAt piece 1 = ''P'' \<Longrightarrow> pieceMoves b piece row col = pawnMoves b piece row col"
  by (simp add: pieceMoves_by_kind)

lemma pieceMoves_R:
  "charAt piece 1 = ''R'' \<Longrightarrow>
   pieceMoves b piece row col = slideDirs b piece row col rookDirs"
  by (simp add: pieceMoves_by_kind)

lemma pieceMoves_N:
  "charAt piece 1 = ''N'' \<Longrightarrow>
   pieceMoves b piece row col = stepMoves b piece row col knightOffsets"
  by (simp add: pieceMoves_by_kind)

lemma pieceMoves_B:
  "charAt piece 1 = ''B'' \<Longrightarrow>
   pieceMoves b piece row col = slideDirs b piece row col bishopDirs"
  by (simp add: pieceMoves_by_kind)

lemma pieceMoves_Q:
  "charAt piece 1 = ''Q'' \<Longrightarrow>
   pieceMoves b piece row col =
     bindE (slideDirs b piece row col rookDirs) (\<lambda>m2.
       bindE (slideDirs b piece row col bishopDirs) (\<lambda>m4. Inr (m2 @ m4)))"
  by (simp add: pieceMoves_by_kind)

lemma pieceMoves_K:
  "charAt piece 1 = ''K'' \<Longrightarrow>
   pieceMoves b piece row col = stepMoves b piece row col kingOffsets"
  by (simp add: pieceMoves_by_kind)

lemma pieceMoves_other:
  "charAt piece 1 \<notin> {''P'', ''R'', ''N'', ''B'', ''Q'', ''K''} \<Longrightarrow>
   pieceMoves b piece row col = Inr []"
  by (simp add: pieceMoves_by_kind)

subsection \<open>Every generated square is on the board\<close>

lemma slide_in:
  "onBoard (r, c) \<Longrightarrow> dr \<noteq> 0 \<or> dc \<noteq> 0 \<Longrightarrow>
   slide b piece dr dc r c =
     (case cellAt b r c of
        Inl e \<Rightarrow> Inl e
      | Inr x \<Rightarrow>
          if x = [] then
            (case slide b piece dr dc (r + dr) (c + dc) of
               Inl e \<Rightarrow> Inl e
             | Inr ms \<Rightarrow> Inr ((r, c) # ms))
          else Inr (if charAt x 0 \<noteq> charAt piece 0 then [(r, c)] else []))"
  by (subst slide.simps) (simp add: onBoard_def)

lemma slide_out:
  "\<not> (onBoard (r, c) \<and> (dr \<noteq> 0 \<or> dc \<noteq> 0)) \<Longrightarrow> slide b piece dr dc r c = Inr []"
  by (subst slide.simps) (auto simp: onBoard_def)

lemma slide_onBoard:
  "slide b piece dr dc r c = Inr ms \<Longrightarrow> m \<in> set ms \<Longrightarrow> onBoard m"
proof (induction b piece dr dc r c arbitrary: ms rule: slide.induct)
  case (1 b piece dr dc r c)
  show ?case
  proof (cases "onBoard (r, c) \<and> (dr \<noteq> 0 \<or> dc \<noteq> 0)")
    case False
    with "1.prems" show ?thesis
      by (simp add: slide_out)
  next
    case True
    then have g: "r \<ge> 0 \<and> r < 8 \<and> c \<ge> 0 \<and> c < 8 \<and> (dr \<noteq> 0 \<or> dc \<noteq> 0)"
      by (simp add: onBoard_def)
    from True have ob: "onBoard (r, c)" and d: "dr \<noteq> 0 \<or> dc \<noteq> 0" by auto
    note unf = slide_in [OF ob d, of b piece]
    from "1.prems"(1) obtain x where x: "cellAt b r c = Inr x"
      unfolding unf by (cases "cellAt b r c") auto
    show ?thesis
    proof (cases "x = []")
      case True
      from "1.prems"(1) obtain ms' where
        ms': "slide b piece dr dc (r + dr) (c + dc) = Inr ms'" and ms: "ms = (r, c) # ms'"
        unfolding unf by (auto simp: x True split: sum.splits)
      from "1.prems"(2) ms have "m = (r, c) \<or> m \<in> set ms'" by auto
      then show ?thesis
      proof
        assume "m = (r, c)"
        with ob show ?thesis by simp
      next
        assume "m \<in> set ms'"
        with "1.IH" [OF g x True ms'] show ?thesis .
      qed
    next
      case False
      from "1.prems"(1) have "set ms \<subseteq> {(r, c)}"
        unfolding unf by (auto simp: x False split: if_splits)
      with "1.prems"(2) ob show ?thesis by auto
    qed
  qed
qed

lemma slideDirs_onBoard:
  "slideDirs b piece row col ds = Inr ms \<Longrightarrow> m \<in> set ms \<Longrightarrow> onBoard m"
proof (induction ds arbitrary: ms)
  case Nil
  then show ?case by simp
next
  case (Cons d ds)
  from Cons.prems(1) obtain a rest where
    a: "slide b piece (fst d) (snd d) (row + fst d) (col + snd d) = Inr a" and
    rest: "slideDirs b piece row col ds = Inr rest" and ms: "ms = a @ rest"
    by (auto simp: bindE_eq_Inr)
  from Cons.prems(2) ms have "m \<in> set a \<or> m \<in> set rest" by auto
  then show ?case
    using slide_onBoard [OF a] Cons.IH [OF rest] by blast
qed

lemma stepMoves_onBoard:
  "stepMoves b piece row col offs = Inr ms \<Longrightarrow> m \<in> set ms \<Longrightarrow> onBoard m"
proof (induction offs arbitrary: ms)
  case Nil
  then show ?case by simp
next
  case (Cons off offs)
  show ?case
  proof (cases "row + fst off \<ge> 0 \<and> row + fst off < 8 \<and> col + snd off \<ge> 0 \<and> col + snd off < 8")
    case True
    from Cons.prems(1) obtain x ms' where
      ms': "stepMoves b piece row col offs = Inr ms'" and
      ms: "set ms \<subseteq> insert (row + fst off, col + snd off) (set ms')"
      by (auto simp: True Let_def bindE_eq_Inr split: if_splits)
    from Cons.prems(2) ms have "m = (row + fst off, col + snd off) \<or> m \<in> set ms'" by auto
    then show ?thesis
      using True Cons.IH [OF ms'] by (auto simp: onBoard_def)
  next
    case False
    with Cons.prems(1) have "stepMoves b piece row col offs = Inr ms"
      by (auto simp: Let_def)
    from Cons.IH [OF this Cons.prems(2)] show ?thesis .
  qed
qed

lemma pawnCaptures_onBoard:
  "length b = 8 \<Longrightarrow> pawnCaptures b piece row col direction offsets = Inr ms \<Longrightarrow>
   m \<in> set ms \<Longrightarrow> onBoard m"
proof (induction offsets arbitrary: ms)
  case Nil
  then show ?case by simp
next
  case (Cons offset rest)
  show ?case
  proof (cases "col + offset \<ge> 0 \<and> col + offset < 8")
    case True
    from Cons.prems(2) obtain t ms' where
      t: "cellAt b (row + direction) (col + offset) = Inr t" and
      ms': "pawnCaptures b piece row col direction rest = Inr ms'" and
      ms: "ms = (if t \<noteq> [] \<and> charAt t 0 \<noteq> charAt piece 0
                 then (row + direction, col + offset) # ms' else ms')"
      by (auto simp: True bindE_eq_Inr)
    show ?thesis
    proof (cases "m \<in> set ms'")
      case True
      from Cons.IH [OF Cons.prems(1) ms' this] show ?thesis .
    next
      case False
      with Cons.prems(3) ms have m: "m = (row + direction, col + offset)" and "t \<noteq> []"
        by (auto split: if_splits)
      from cellAt_nonempty [OF t this(2)] Cons.prems(1) True show ?thesis
        by (simp add: m onBoard_def)
    qed
  next
    case False
    with Cons.prems(2) have "pawnCaptures b piece row col direction rest = Inr ms"
      by auto
    from Cons.IH [OF Cons.prems(1) this Cons.prems(3)] show ?thesis .
  qed
qed

lemma pawnForward_onBoard:
  "0 \<le> col \<Longrightarrow> col < 8 \<Longrightarrow>
   pawnForward b row col (if isWhite then -1 else 1) isWhite = Inr ms \<Longrightarrow>
   m \<in> set ms \<Longrightarrow> onBoard m"
  by (cases isWhite)
     (auto simp: pawnForward_def Let_def bindE_eq_Inr onBoard_def split: if_splits)

lemma pawnMoves_onBoard:
  assumes "length b = 8" "0 \<le> col" "col < 8"
    "pawnMoves b piece row col = Inr ms" "m \<in> set ms"
  shows "onBoard m"
proof -
  from assms(4) obtain fw cp where
    fw: "pawnForward b row col (if charAt piece 0 = ''w'' then -1 else 1)
           (charAt piece 0 = ''w'') = Inr fw" and
    cp: "pawnCaptures b piece row col (if charAt piece 0 = ''w'' then -1 else 1) [-1, 1]
           = Inr cp" and
    ms: "ms = fw @ cp"
    by (auto simp: pawnMoves_def Let_def bindE_eq_Inr)
  from assms(5) ms have "m \<in> set fw \<or> m \<in> set cp" by auto
  then show ?thesis
    using pawnForward_onBoard [OF assms(2,3) fw] pawnCaptures_onBoard [OF assms(1) cp]
    by blast
qed

lemma pieceMoves_onBoard:
  assumes "length b = 8" "onBoard (row, col)"
    "pieceMoves b piece row col = Inr ms" "m \<in> set ms"
  shows "onBoard m"
proof -
  from assms(2) have col: "0 \<le> col" "col < 8" by (simp_all add: onBoard_def)
  consider (P) "charAt piece 1 = ''P''" | (R) "charAt piece 1 = ''R''"
    | (N) "charAt piece 1 = ''N''" | (B) "charAt piece 1 = ''B''"
    | (Q) "charAt piece 1 = ''Q''" | (K) "charAt piece 1 = ''K''"
    | (other) "charAt piece 1 \<notin> {''P'', ''R'', ''N'', ''B'', ''Q'', ''K''}"
    by blast
  then show ?thesis
  proof cases
    case P
    with assms(3) have "pawnMoves b piece row col = Inr ms" by (simp add: pieceMoves_P)
    from pawnMoves_onBoard [OF assms(1) col this assms(4)] show ?thesis .
  next
    case R
    with assms(3) have "slideDirs b piece row col rookDirs = Inr ms"
      by (simp add: pieceMoves_R)
    from slideDirs_onBoard [OF this assms(4)] show ?thesis .
  next
    case N
    with assms(3) have "stepMoves b piece row col knightOffsets = Inr ms"
      by (simp add: pieceMoves_N)
    from stepMoves_onBoard [OF this assms(4)] show ?thesis .
  next
    case B
    with assms(3) have "slideDirs b piece row col bishopDirs = Inr ms"
      by (simp add: pieceMoves_B)
    from slideDirs_onBoard [OF this assms(4)] show ?thesis .
  next
    case Q
    with assms(3) obtain m2 m4 where
      m2: "slideDirs b piece row col rookDirs = Inr m2" and
      m4: "slideDirs b piece row col bishopDirs = Inr m4" and ms: "ms = m2 @ m4"
      by (auto simp: pieceMoves_Q bindE_eq_Inr)
    from assms(4) ms have "m \<in> set m2 \<or> m \<in> set m4" by auto
    then show ?thesis
      using slideDirs_onBoard [OF m2] slideDirs_onBoard [OF m4] by blast
  next
    case K
    with assms(3) have "stepMoves b piece row col kingOffsets = Inr ms"
      by (simp add: pieceMoves_K)
    from stepMoves_onBoard [OF this assms(4)] show ?thesis .
  next
    case other
    with assms(3) have "ms = []" by (simp add: pieceMoves_other)
    with assms(4) show ?thesis by simp
  qed
qed

lemma getRawPossibleMoves_onBoard:
  assumes "length b = 8" "onBoard (row, col)"
    "getRawPossibleMoves row col b = Inr ms" "m \<in> set ms"
  shows "onBoard m"
proof -
  from assms(3) obtain piece where piece: "cellAt b row col = Inr piece"
    by (auto simp: getRawPossibleMoves_def bindE_eq_Inr)
  show ?thesis
  proof (cases "piece = []")
    case True
    with assms(3,4) piece show ?thesis by (simp add: getRawPossibleMoves_def)
  next
    case False
    with assms(3) piece have "pieceMoves b piece row col = Inr ms"
      by (simp add: getRawPossibleMoves_def)
    from pieceMoves_onBoard [OF assms(1,2) this assms(4)] show ?thesis .
  qed
qed

lemma filterMoves_subset:
  "filterMoves cands row col b isWhite = Inr valid \<Longrightarrow> set valid \<subseteq> set cands"
proof (induction cands arbitrary: valid)
  case Nil
  then show ?case by simp
next
  case (Cons move rest)
  from Cons.prems obtain v where
    v: "filterMoves rest row col b isWhite = Inr v" and "set valid \<subseteq> insert move (set v)"
    by (auto simp: bindE_eq_Inr split: if_splits)
  with Cons.IH [OF v] show ?case by auto
qed

lemma castlingMoves_squares:
  "castlingMoves b g isWhite = Inr ms \<Longrightarrow>
   set ms \<subseteq> (if isWhite then {(7, 6), (7, 2)} else {(0, 6), (0, 2)})"
  by (auto simp: castlingMoves_def bindE_eq_Inr split: if_splits)

lemma getPossibleMoves_candidates:
  assumes "getPossibleMoves row col b g = Inr ms" "m \<in> set ms"
  obtains raw castle piece where
    "cellAt b row col = Inr piece" "piece \<noteq> []"
    "getRawPossibleMoves row col b = Inr raw"
    "(if charAt piece 1 = ''K'' then castlingMoves b g (charAt piece 0 = ''w'') else Inr [])
       = Inr castle"
    "filterMoves (raw @ castle) row col b (charAt piece 0 = ''w'') = Inr ms"
proof -
  from assms(1) obtain piece where piece: "cellAt b row col = Inr piece"
    by (auto simp: getPossibleMoves_def bindE_eq_Inr)
  have ne: "piece \<noteq> []"
    using assms piece by (auto simp: getPossibleMoves_def)
  from assms(1) piece ne obtain raw castle where
    "getRawPossibleMoves row col b = Inr raw"
    "(if charAt piece 1 = ''K'' then castlingMoves b g (charAt piece 0 = ''w'') else Inr [])
       = Inr castle"
    "filterMoves (raw @ castle) row col b (charAt piece 0 = ''w'') = Inr ms"
    unfolding getPossibleMoves_def Let_def by (simp add: bindE_eq_Inr) blast
  with piece ne that show ?thesis by blast
qed

lemma getPossibleMoves_onBoard:
  assumes "length b = 8" "onBoard (row, col)"
    "getPossibleMoves row col b g = Inr ms" "m \<in> set ms"
  shows "onBoard m"
proof -
  from assms(3,4) obtain raw castle piece where
    raw: "getRawPossibleMoves row col b = Inr raw" and
    castle: "(if charAt piece 1 = ''K'' then castlingMoves b g (charAt piece 0 = ''w'')
              else Inr []) = Inr castle" and
    f: "filterMoves (raw @ castle) row col b (charAt piece 0 = ''w'') = Inr ms"
    by (rule getPossibleMoves_candidates)
  from filterMoves_subset [OF f] assms(4) have "m \<in> set raw \<or> m \<in> set castle" by auto
  then show ?thesis
  proof
    assume "m \<in> set raw"
    from getRawPossibleMoves_onBoard [OF assms(1,2) raw this] show ?thesis .
  next
    assume m: "m \<in> set castle"
    from castle have "set castle \<subseteq> {(7, 6), (7, 2), (0, 6), (0, 2)}"
      using castlingMoves_squares [of b g "charAt piece 0 = ''w''" castle]
      by (auto split: if_splits)
    with m show ?thesis by (auto simp: onBoard_def)
  qed
qed

text \<open>
  C6. On a board of eight rows and for a query square on the board, every square in the
  list returned by \<open>getRawPossibleMoves\<close>, and every square in the list returned by
  \<open>getPossibleMoves\<close>, has its row and its column in 0..7.
\<close>

theorem generated_squares_onBoard:
  assumes "length b = 8" "onBoard (row, col)"
  shows "(getRawPossibleMoves row col b = Inr raw \<longrightarrow> (\<forall>m\<in>set raw. onBoard m)) \<and>
         (getPossibleMoves row col b g = Inr ms \<longrightarrow> (\<forall>m\<in>set ms. onBoard m))"
  using getRawPossibleMoves_onBoard [OF assms] getPossibleMoves_onBoard [OF assms] by blast

theorem generated_squares_onBoard_witness:
  "length castleBoard = 8 \<and> onBoard (7, 4) \<and>
   getRawPossibleMoves 7 4 castleBoard = Inr [(7, 5), (7, 3), (6, 3), (6, 4), (6, 5)] \<and>
   onBoard (6, 3) \<and>
   getPossibleMoves 7 4 castleBoard initialGameState =
     Inr [(7, 5), (7, 3), (6, 3), (6, 4), (6, 5), (7, 6), (7, 2)] \<and>
   onBoard (7, 6)"
proof -
  have l: "length castleBoard = 8" by (simp add: castleBoard_def)
  have q: "onBoard (7, 4)" by (simp add: onBoard_def)
  have r: "getRawPossibleMoves 7 4 castleBoard = Inr [(7, 5), (7, 3), (6, 3), (6, 4), (6, 5)]"
    by code_simp
  have p: "getPossibleMoves 7 4 castleBoard initialGameState =
      Inr [(7, 5), (7, 3), (6, 3), (6, 4), (6, 5), (7, 6), (7, 2)]"
    by code_simp
  from generated_squares_onBoard [OF l q, of "[(7, 5), (7, 3), (6, 3), (6, 4), (6, 5)]"
      initialGameState "[(7, 5), (7, 3), (6, 3), (6, 4), (6, 5), (7, 6), (7, 2)]"] r p
  have "onBoard (6, 3)" "onBoard (7, 6)" by auto
  with l q r p show ?thesis by blast
qed

subsection \<open>Finding the king\<close>

lemma set_allSquares_grid: "set allSquares = {0..7} \<times> {0..7}"
  by (force simp: allSquares_def)

lemma set_allSquares: "set allSquares = {sq. onBoard sq}"
  unfolding set_allSquares_grid by (auto simp: onBoard_def)

lemma cellAt_ok: "length b = 8 \<Longrightarrow> onBoard (r, c) \<Longrightarrow> \<exists>x. cellAt b r c = Inr x"
  by (simp add: cellAt_def onBoard_def)

lemma findKingIn_absent:
  "\<forall>sq\<in>set sqs. \<exists>x. cellAt b (fst sq) (snd sq) = Inr x \<and> x \<noteq> k \<Longrightarrow>
   findKingIn sqs b k = Inr None"
  by (induction sqs) auto

lemma findKingIn_present:
  "\<forall>sq\<in>set sqs. \<exists>x. cellAt b (fst sq) (snd sq) = Inr x \<Longrightarrow>
   \<exists>sq\<in>set sqs. cellAt b (fst sq) (snd sq) = Inr k \<Longrightarrow>
   \<exists>sq\<in>set sqs. findKingIn sqs b k = Inr (Some sq) \<and> cellAt b (fst sq) (snd sq) = Inr k"
proof (induction sqs)
  case Nil
  then show ?case by simp
next
  case (Cons sq sqs)
  from Cons.prems(1) obtain x where x: "cellAt b (fst sq) (snd sq) = Inr x" by auto
  show ?case
  proof (cases "x = k")
    case True
    with x show ?thesis by simp
  next
    case False
    with x Cons.prems have "\<forall>sq\<in>set sqs. \<exists>x. cellAt b (fst sq) (snd sq) = Inr x"
      "\<exists>sq\<in>set sqs. cellAt b (fst sq) (snd sq) = Inr k"
      by auto
    from Cons.IH [OF this] x False show ?thesis by auto
  qed
qed

lemma isKingInCheck_no_king:
  assumes "length b = 8"
    "\<forall>sq\<in>set allSquares. cellAt b (fst sq) (snd sq) \<noteq> Inr (kingPiece w)"
  shows "isKingInCheck b w = Inr False"
proof -
  have "\<forall>sq\<in>set allSquares. \<exists>x. cellAt b (fst sq) (snd sq) = Inr x \<and> x \<noteq> kingPiece w"
  proof
    fix sq assume sq: "sq \<in> set allSquares"
    then have "onBoard (fst sq, snd sq)" by (simp add: set_allSquares)
    from cellAt_ok [OF assms(1) this] assms(2) sq
    show "\<exists>x. cellAt b (fst sq) (snd sq) = Inr x \<and> x \<noteq> kingPiece w" by auto
  qed
  from findKingIn_absent [OF this] show ?thesis
    by (simp add: isKingInCheck_def findKing_def)
qed

lemma isKingInCheck_king:
  assumes "length b = 8"
    "\<exists>sq\<in>set allSquares. cellAt b (fst sq) (snd sq) = Inr (kingPiece w)"
  shows "\<exists>k\<in>set allSquares. findKing b w = Inr (Some k) \<and>
           cellAt b (fst k) (snd k) = Inr (kingPiece w) \<and>
           isKingInCheck b w = isSquareUnderAttack (fst k) (snd k) b (\<not> w)"
proof -
  have "\<forall>sq\<in>set allSquares. \<exists>x. cellAt b (fst sq) (snd sq) = Inr x"
  proof
    fix sq assume "sq \<in> set allSquares"
    then have "onBoard (fst sq, snd sq)" by (simp add: set_allSquares)
    from cellAt_ok [OF assms(1) this] show "\<exists>x. cellAt b (fst sq) (snd sq) = Inr x" .
  qed
  from findKingIn_present [OF this assms(2)] obtain k where
    "k \<in> set allSquares" "findKing b w = Inr (Some k)"
    "cellAt b (fst k) (snd k) = Inr (kingPiece w)"
    by (auto simp: findKing_def)
  then show ?thesis by (auto simp: isKingInCheck_def)
qed

text \<open>
  C4, as the code has it. On a board of eight rows that holds no king of the queried colour
  on any of its 64 squares, \<open>isKingInCheck\<close> returns the ordinary result \<open>false\<close>; when the
  king is there, \<open>findKing\<close> returns a square holding it and \<open>isKingInCheck\<close> is
  \<open>isSquareUnderAttack\<close> of that square by the opposite colour.
\<close>

theorem isKingInCheck_spec:
  assumes "length b = 8"
  shows "((\<forall>sq\<in>set allSquares. cellAt b (fst sq) (snd sq) \<noteq> Inr (kingPiece w)) \<longrightarrow>
            isKingInCheck b w = Inr False) \<and>
         ((\<exists>sq\<in>set allSquares. cellAt b (fst sq) (snd sq) = Inr (kingPiece w)) \<longrightarrow>
            (\<exists>k\<in>set allSquares. findKing b w = Inr (Some k) \<and>
               cellAt b (fst k) (snd k) = Inr (kingPiece w) \<and>
               isKingInCheck b w = isSquareUnderAttack (fst k) (snd k) b (\<not> w)))"
  using isKingInCheck_no_king [OF assms] isKingInCheck_king [OF assms] by blast

theorem isKingInCheck_spec_witness:
  "length noWhiteKingBoard = 8 \<and>
   list_all (\<lambda>sq. cellAt noWhiteKingBoard (fst sq) (snd sq) \<noteq> Inr (kingPiece True)) allSquares \<and>
   isKingInCheck noWhiteKingBoard True = Inr False \<and>
   cellAt noWhiteKingBoard 0 0 = Inr (kingPiece False) \<and>
   findKing noWhiteKingBoard False = Inr (Some (0, 0)) \<and>
   isKingInCheck noWhiteKingBoard False = isSquareUnderAttack 0 0 noWhiteKingBoard True"
proof -
  have l: "length noWhiteKingBoard = 8" by (simp add: noWhiteKingBoard_def)
  have a: "list_all (\<lambda>sq. cellAt noWhiteKingBoard (fst sq) (snd sq) \<noteq> Inr (kingPiece True))
             allSquares"
    by code_simp
  have k: "cellAt noWhiteKingBoard 0 0 = Inr (kingPiece False)" by code_simp
  have f: "findKing noWhiteKingBoard False = Inr (Some (0, 0))" by code_simp
  have m: "(0, 0) \<in> set allSquares" by (simp add: set_allSquares onBoard_def)
  from isKingInCheck_spec [OF l, of True] a
  have 1: "isKingInCheck noWhiteKingBoard True = Inr False"
    by (simp add: list_all_iff)
  from isKingInCheck_spec [OF l, of False] k m f
  have 2: "isKingInCheck noWhiteKingBoard False = isSquareUnderAttack 0 0 noWhiteKingBoard True"
    by fastforce
  from l a 1 k f 2 show ?thesis by blast
qed

text \<open>
  The specification's wording (a \<open>NoKingFound\<close> failure) does not hold: the board
  \<open>noWhiteKingBoard\<close> holds no white king, \<open>findKing\<close> returns \<open>null\<close> and
  \<open>isKingInCheck\<close> for white returns \<open>false\<close>.
\<close>

theorem isKingInCheck_no_king_counterexample:
  "findKing noWhiteKingBoard True = Inr None \<and>
   isKingInCheck noWhiteKingBoard True = Inr False"
  by code_simp

subsection \<open>A pawn on its far rank\<close>

text \<open>
  C5 does not hold of the code. On the well-formed board \<open>farRankBoard\<close> the white pawn on
  (0,0) makes the capture loop read \<open>board[-1][1]\<close>: \<open>getRawPossibleMoves\<close> and
  \<open>getPossibleMoves\<close> raise \<open>TypeError\<close> instead of returning a list, and so does the
  check query for the black king, which scans the white pieces. The forward move, three
  lines above in the source, does test \<open>row + direction\<close> against 0 and 8.
\<close>

theorem far_rank_pawn_raises:
  "getRawPossibleMoves 0 0 farRankBoard = Inl TypeError \<and>
   getPossibleMoves 0 0 farRankBoard initialGameState = Inl TypeError \<and>
   isKingInCheck farRankBoard False = Inl TypeError"
  by code_simp

subsection \<open>Castling destinations\<close>

lemma andE_True: "andE p q = Inr True \<longleftrightarrow> p = Inr True \<and> q = Inr True"
  by (cases p) (auto simp: andE_def)

lemma notE_True: "notE p = Inr True \<longleftrightarrow> p = Inr False"
  by (cases p) (auto simp: notE_def)

lemma isEmptyAt_True: "isEmptyAt b r c = Inr True \<longleftrightarrow> cellAt b r c = Inr []"
  by (cases "cellAt b r c") (auto simp: isEmptyAt_def)

lemma holdsAt_True: "holdsAt b r c s = Inr True \<longleftrightarrow> cellAt b r c = Inr s"
  by (cases "cellAt b r c") (auto simp: holdsAt_def)

lemmas condE = andE_True notE_True isEmptyAt_True holdsAt_True

lemma whiteKingsideOK_iff:
  "whiteKingsideOK b g = Inr True \<longleftrightarrow>
     canWhiteCastleKingside g \<and> cellAt b 7 5 = Inr [] \<and> cellAt b 7 6 = Inr [] \<and>
     cellAt b 7 7 = Inr ''wR'' \<and> isKingInCheck b True = Inr False \<and>
     isSquareUnderAttack 7 5 b False = Inr False \<and>
     isSquareUnderAttack 7 6 b False = Inr False"
  by (simp add: whiteKingsideOK_def condE)

lemma whiteQueensideOK_iff:
  "whiteQueensideOK b g = Inr True \<longleftrightarrow>
     canWhiteCastleQueenside g \<and> cellAt b 7 1 = Inr [] \<and> cellAt b 7 2 = Inr [] \<and>
     cellAt b 7 3 = Inr [] \<and> cellAt b 7 0 = Inr ''wR'' \<and>
     isKingInCheck b True = Inr False \<and>
     isSquareUnderAttack 7 2 b False = Inr False \<and>
     isSquareUnderAttack 7 3 b False = Inr False"
  by (simp add: whiteQueensideOK_def condE)

lemma blackKingsideOK_iff:
  "blackKingsideOK b g = Inr True \<longleftrightarrow>
     canBlackCastleKingside g \<and> cellAt b 0 5 = Inr [] \<and> cellAt b 0 6 = Inr [] \<and>
     cellAt b 0 7 = Inr ''bR'' \<and> isKingInCheck b False = Inr False \<and>
     isSquareUnderAttack 0 5 b True = Inr False \<and>
     isSquareUnderAttack 0 6 b True = Inr False"
  by (simp add: blackKingsideOK_def condE)

lemma blackQueensideOK_iff:
  "blackQueensideOK b g = Inr True \<longleftrightarrow>
     canBlackCastleQueenside g \<and> cellAt b 0 1 = Inr [] \<and> cellAt b 0 2 = Inr [] \<and>
     cellAt b 0 3 = Inr [] \<and> cellAt b 0 0 = Inr ''bR'' \<and>
     isKingInCheck b False = Inr False \<and>
     isSquareUnderAttack 0 2 b True = Inr False \<and>
     isSquareUnderAttack 0 3 b True = Inr False"
  by (simp add: blackQueensideOK_def condE)

lemma castlingMoves_white:
  "castlingMoves b g True = Inr ms \<Longrightarrow>
   set ms \<subseteq> {(7, 6), (7, 2)} \<and>
   ((7, 6) \<in> set ms \<longleftrightarrow> whiteKingsideOK b g = Inr True) \<and>
   ((7, 2) \<in> set ms \<longleftrightarrow> whiteQueensideOK b g = Inr True)"
  by (auto simp: castlingMoves_def bindE_eq_Inr split: if_splits)

lemma castlingMoves_black:
  "castlingMoves b g False = Inr ms \<Longrightarrow>
   set ms \<subseteq> {(0, 6), (0, 2)} \<and>
   ((0, 6) \<in> set ms \<longleftrightarrow> blackKingsideOK b g = Inr True) \<and>
   ((0, 2) \<in> set ms \<longleftrightarrow> blackQueensideOK b g = Inr True)"
  by (auto simp: castlingMoves_def bindE_eq_Inr split: if_splits)

text \<open>A step move lands one offset away from the origin.\<close>

lemma stepMoves_offsets:
  "stepMoves b piece row col offs = Inr ms \<Longrightarrow> m \<in> set ms \<Longrightarrow>
   \<exists>off\<in>set offs. m = (row + fst off, col + snd off)"
proof (induction offs arbitrary: ms)
  case Nil
  then show ?case by simp
next
  case (Cons off offs)
  show ?case
  proof (cases "row + fst off \<ge> 0 \<and> row + fst off < 8 \<and> col + snd off \<ge> 0 \<and> col + snd off < 8")
    case True
    from Cons.prems(1) obtain ms' where
      ms': "stepMoves b piece row col offs = Inr ms'" and
      ms: "set ms \<subseteq> insert (row + fst off, col + snd off) (set ms')"
      by (auto simp: True Let_def bindE_eq_Inr split: if_splits)
    from Cons.prems(2) ms have "m = (row + fst off, col + snd off) \<or> m \<in> set ms'" by auto
    then show ?thesis
      using Cons.IH [OF ms'] by auto
  next
    case False
    with Cons.prems(1) have "stepMoves b piece row col offs = Inr ms"
      by (auto simp: Let_def)
    from Cons.IH [OF this Cons.prems(2)] show ?thesis by auto
  qed
qed

lemma kingStep_cols:
  "stepMoves b piece row col kingOffsets = Inr ms \<Longrightarrow> m \<in> set ms \<Longrightarrow>
   col - 1 \<le> snd m \<and> snd m \<le> col + 1"
  by (drule (1) stepMoves_offsets) (auto simp: kingOffsets_def)

text \<open>What the filter loop keeps.\<close>

lemma filterMoves_mem:
  "filterMoves cands row col b isWhite = Inr valid \<Longrightarrow>
   m \<in> set valid \<longleftrightarrow>
     m \<in> set cands \<and> (\<exists>t. testBoard b row col m = Inr t \<and> isKingInCheck t isWhite = Inr False)"
proof (induction cands arbitrary: valid)
  case Nil
  then show ?case by simp
next
  case (Cons move rest)
  from Cons.prems obtain t chk v where
    t: "testBoard b row col move = Inr t" and chk: "isKingInCheck t isWhite = Inr chk" and
    v: "filterMoves rest row col b isWhite = Inr v" and
    valid: "valid = (if \<not> chk then move # v else v)"
    by (auto simp: bindE_eq_Inr)
  from Cons.IH [OF v] t chk valid show ?case by auto
qed

text \<open>The legal moves of a king: which candidates there are, and which survive.\<close>

lemma getPossibleMoves_king:
  assumes "cellAt b row col = Inr piece" "charAt piece 1 = ''K''"
    "getPossibleMoves row col b g = Inr ms"
  obtains raw castle where
    "stepMoves b piece row col kingOffsets = Inr raw"
    "castlingMoves b g (charAt piece 0 = ''w'') = Inr castle"
    "filterMoves (raw @ castle) row col b (charAt piece 0 = ''w'') = Inr ms"
proof -
  from assms(2) have ne: "piece \<noteq> []" by (auto simp: charAt_def)
  from assms ne obtain raw castle where
    "pieceMoves b piece row col = Inr raw"
    "castlingMoves b g (charAt piece 0 = ''w'') = Inr castle"
    "filterMoves (raw @ castle) row col b (charAt piece 0 = ''w'') = Inr ms"
    by (auto simp: getPossibleMoves_def getRawPossibleMoves_def Let_def bindE_eq_Inr)
  with assms(2) that show ?thesis by (simp add: pieceMoves_K)
qed

lemma king_castle_mem:
  assumes "cellAt b row 4 = Inr piece" "charAt piece 1 = ''K''"
    "getPossibleMoves row 4 b g = Inr ms" "castlingMoves b g (charAt piece 0 = ''w'') = Inr castle"
    "snd m = 6 \<or> snd m = 2"
  shows "m \<in> set ms \<longleftrightarrow>
     m \<in> set castle \<and>
     (\<exists>t. testBoard b row 4 m = Inr t \<and> isKingInCheck t (charAt piece 0 = ''w'') = Inr False)"
proof -
  from assms(1-3) obtain raw castle' where
    raw: "stepMoves b piece row 4 kingOffsets = Inr raw" and
    c: "castlingMoves b g (charAt piece 0 = ''w'') = Inr castle'" and
    f: "filterMoves (raw @ castle') row 4 b (charAt piece 0 = ''w'') = Inr ms"
    by (rule getPossibleMoves_king)
  from c assms(4) have cc: "castle' = castle" by simp
  have "m \<notin> set raw"
    using kingStep_cols [OF raw, of m] assms(5) by auto
  with filterMoves_mem [OF f, of m] cc show ?thesis by auto
qed

lemma white_king_castling:
  assumes "cellAt b 7 4 = Inr ''wK''" "getPossibleMoves 7 4 b g = Inr ms"
  shows "((7, 6) \<in> set ms \<longleftrightarrow>
            whiteKingsideOK b g = Inr True \<and>
            (\<exists>t. testBoard b 7 4 (7, 6) = Inr t \<and> isKingInCheck t True = Inr False)) \<and>
         ((7, 2) \<in> set ms \<longleftrightarrow>
            whiteQueensideOK b g = Inr True \<and>
            (\<exists>t. testBoard b 7 4 (7, 2) = Inr t \<and> isKingInCheck t True = Inr False))"
proof -
  have k: "charAt ''wK'' 1 = ''K''" and w: "(charAt ''wK'' 0 = ''w'') = True"
    by (simp_all add: charAt_def)
  obtain castle where c: "castlingMoves b g (charAt ''wK'' 0 = ''w'') = Inr castle"
    using getPossibleMoves_king [OF assms(1) k assms(2)] by blast
  from c have c': "castlingMoves b g True = Inr castle" by (simp only: w)
  from king_castle_mem [OF assms(1) k assms(2) c, of "(7, 6)"]
       king_castle_mem [OF assms(1) k assms(2) c, of "(7, 2)"]
       castlingMoves_white [OF c']
  show ?thesis by (simp add: w)
qed

lemma black_king_castling:
  assumes "cellAt b 0 4 = Inr ''bK''" "getPossibleMoves 0 4 b g = Inr ms"
  shows "((0, 6) \<in> set ms \<longleftrightarrow>
            blackKingsideOK b g = Inr True \<and>
            (\<exists>t. testBoard b 0 4 (0, 6) = Inr t \<and> isKingInCheck t False = Inr False)) \<and>
         ((0, 2) \<in> set ms \<longleftrightarrow>
            blackQueensideOK b g = Inr True \<and>
            (\<exists>t. testBoard b 0 4 (0, 2) = Inr t \<and> isKingInCheck t False = Inr False))"
proof -
  have k: "charAt ''bK'' 1 = ''K''" and w: "(charAt ''bK'' 0 = ''w'') = False"
    by (simp_all add: charAt_def)
  obtain castle where c: "castlingMoves b g (charAt ''bK'' 0 = ''w'') = Inr castle"
    using getPossibleMoves_king [OF assms(1) k assms(2)] by blast
  from c have c': "castlingMoves b g False = Inr castle" by (simp only: w)
  from king_castle_mem [OF assms(1) k assms(2) c, of "(0, 6)"]
       king_castle_mem [OF assms(1) k assms(2) c, of "(0, 2)"]
       castlingMoves_black [OF c']
  show ?thesis by (simp add: w)
qed

text \<open>
  C2, as the code has it. For a white king on (7,4), the list returned by
  \<open>getPossibleMoves\<close> holds (7,6) exactly when the kingside right is set, (7,5) and (7,6) are
  empty, (7,7) holds a white rook, the king is not in check, neither (7,5) nor (7,6) is
  attacked by black, and moreover the king is not in check on the board where it has been
  moved from (7,4) to (7,6) (the filter loop runs over the castling candidates too); likewise
  for (7,2) on the queenside, and for a black king on (0,4) with (0,6) and (0,2).
\<close>

theorem castling_destinations:
  "(cellAt b 7 4 = Inr ''wK'' \<and> getPossibleMoves 7 4 b g = Inr ms \<longrightarrow>
      ((7, 6) \<in> set ms \<longleftrightarrow>
         canWhiteCastleKingside g \<and> cellAt b 7 5 = Inr [] \<and> cellAt b 7 6 = Inr [] \<and>
         cellAt b 7 7 = Inr ''wR'' \<and> isKingInCheck b True = Inr False \<and>
         isSquareUnderAttack 7 5 b False = Inr False \<and>
         isSquareUnderAttack 7 6 b False = Inr False \<and>
         (\<exists>t. testBoard b 7 4 (7, 6) = Inr t \<and> isKingInCheck t True = Inr False)) \<and>
      ((7, 2) \<in> set ms \<longleftrightarrow>
         canWhiteCastleQueenside g \<and> cellAt b 7 1 = Inr [] \<and> cellAt b 7 2 = Inr [] \<and>
         cellAt b 7 3 = Inr [] \<and> cellAt b 7 0 = Inr ''wR'' \<and>
         isKingInCheck b True = Inr False \<and>
         isSquareUnderAttack 7 2 b False = Inr False \<and>
         isSquareUnderAttack 7 3 b False = Inr False \<and>
         (\<exists>t. testBoard b 7 4 (7, 2) = Inr t \<and> isKingInCheck t True = Inr False))) \<and>
   (cellAt b 0 4 = Inr ''bK'' \<and> getPossibleMoves 0 4 b g = Inr ms' \<longrightarrow>
      ((0, 6) \<in> set ms' \<longleftrightarrow>
         canBlackCastleKingside g \<and> cellAt b 0 5 = Inr [] \<and> cellAt b 0 6 = Inr [] \<and>
         cellAt b 0 7 = Inr ''bR'' \<and> isKingInCheck b False = Inr False \<and>
         isSquareUnderAttack 0 5 b True = Inr False \<and>
         isSquareUnderAttack 0 6 b True = Inr False \<and>
         (\<exists>t. testBoard b 0 4 (0, 6) = Inr t \<and> isKingInCheck t False = Inr False)) \<and>
      ((0, 2) \<in> set ms' \<longleftrightarrow>
         canBlackCastleQueenside g \<and> cellAt b 0 1 = Inr [] \<and> cellAt b 0 2 = Inr [] \<and>
         cellAt b 0 3 = Inr [] \<and> cellAt b 0 0 = Inr ''bR'' \<and>
         isKingInCheck b False = Inr False \<and>
         isSquareUnderAttack 0 2 b True = Inr False \<and>
         isSquareUnderAttack 0 3 b True = Inr False \<and>
         (\<exists>t. testBoard b 0 4 (0, 2) = Inr t \<and> isKingInCheck t False = Inr False)))"
proof (intro conjI impI)
  assume "cellAt b 7 4 = Inr ''wK'' \<and> getPossibleMoves 7 4 b g = Inr ms"
  then have w: "cellAt b 7 4 = Inr ''wK''" "getPossibleMoves 7 4 b g = Inr ms" by auto
  from white_king_castling [OF w]
  show "(7, 6) \<in> set ms \<longleftrightarrow>
         canWhiteCastleKingside g \<and> cellAt b 7 5 = Inr [] \<and> cellAt b 7 6 = Inr [] \<and>
         cellAt b 7 7 = Inr ''wR'' \<and> isKingInCheck b True = Inr False \<and>
         isSquareUnderAttack 7 5 b False = Inr False \<and>
         isSquareUnderAttack 7 6 b False = Inr False \<and>
         (\<exists>t. testBoard b 7 4 (7, 6) = Inr t \<and> isKingInCheck t True = Inr False)"
    unfolding whiteKingsideOK_iff by blast
  from white_king_castling [OF w]
  show "(7, 2) \<in> set ms \<longleftrightarrow>
         canWhiteCastleQueenside g \<and> cellAt b 7 1 = Inr [] \<and> cellAt b 7 2 = Inr [] \<and>
         cellAt b 7 3 = Inr [] \<and> cellAt b 7 0 = Inr ''wR'' \<and>
         isKingInCheck b True = Inr False \<and>
         isSquareUnderAttack 7 2 b False = Inr False \<and>
         isSquareUnderAttack 7 3 b False = Inr False \<and>
         (\<exists>t. testBoard b 7 4 (7, 2) = Inr t \<and> isKingInCheck t True = Inr False)"
    unfolding whiteQueensideOK_iff by blast
next
  assume "cellAt b 0 4 = Inr ''bK'' \<and> getPossibleMoves 0 4 b g = Inr ms'"
  then have k: "cellAt b 0 4 = Inr ''bK''" "getPossibleMoves 0 4 b g = Inr ms'" by auto
  from black_king_castling [OF k]
  show "(0, 6) \<in> set ms' \<longleftrightarrow>
         canBlackCastleKingside g \<and> cellAt b 0 5 = Inr [] \<and> cellAt b 0 6 = Inr [] \<and>
         cellAt b 0 7 = Inr ''bR'' \<and> isKingInCheck b False = Inr False \<and>
         isSquareUnderAttack 0 5 b True = Inr False \<and>
         isSquareUnderAttack 0 6 b True = Inr False \<and>
         (\<exists>t. testBoard b 0 4 (0, 6) = Inr t \<and> isKingInCheck t False = Inr False)"
    unfolding blackKingsideOK_iff by blast
  from black_king_castling [OF k]
  show "(0, 2) \<in> set ms' \<longleftrightarrow>
         canBlackCastleQueenside g \<and> cellAt b 0 1 = Inr [] \<and> cellAt b 0 2 = Inr [] \<and>
         cellAt b 0 3 = Inr [] \<and> cellAt b 0 0 = Inr ''bR'' \<and>
         isKingInCheck b False = Inr False \<and>
         isSquareUnderAttack 0 2 b True = Inr False \<and>
         isSquareUnderAttack 0 3 b True = Inr False \<and>
         (\<exists>t. testBoard b 0 4 (0, 2) = Inr t \<and> isKingInCheck t False = Inr False)"
    unfolding blackQueensideOK_iff by blast
qed

theorem castling_destinations_witness:
  "cellAt castleBoard 7 4 = Inr ''wK'' \<and>
   getPossibleMoves 7 4 castleBoard initialGameState =
     Inr [(7, 5), (7, 3), (6, 3), (6, 4), (6, 5), (7, 6), (7, 2)] \<and>
   canWhiteCastleKingside initialGameState \<and>
   cellAt castleBoard 7 5 = Inr [] \<and> cellAt castleBoard 7 6 = Inr [] \<and>
   cellAt castleBoard 7 7 = Inr ''wR'' \<and> isKingInCheck castleBoard True = Inr False \<and>
   isSquareUnderAttack 7 5 castleBoard False = Inr False \<and>
   isSquareUnderAttack 7 6 castleBoard False = Inr False \<and>
   (\<exists>t. testBoard castleBoard 7 4 (7, 6) = Inr t \<and> isKingInCheck t True = Inr False) \<and>
   cellAt castleBoard 0 4 = Inr ''bK'' \<and>
   getPossibleMoves 0 4 castleBoard (initialGameState\<lparr>canBlackCastleQueenside := False\<rparr>) =
     Inr [(0, 5), (1, 5), (1, 4), (1, 3), (0, 3), (0, 6)] \<and>
   \<not> canBlackCastleQueenside (initialGameState\<lparr>canBlackCastleQueenside := False\<rparr>)"
proof -
  have w: "cellAt castleBoard 7 4 = Inr ''wK''" by code_simp
  have mw: "getPossibleMoves 7 4 castleBoard initialGameState =
      Inr [(7, 5), (7, 3), (6, 3), (6, 4), (6, 5), (7, 6), (7, 2)]" by code_simp
  have k: "cellAt castleBoard 0 4 = Inr ''bK''" by code_simp
  have mk: "getPossibleMoves 0 4 castleBoard
      (initialGameState\<lparr>canBlackCastleQueenside := False\<rparr>) =
      Inr [(0, 5), (1, 5), (1, 4), (1, 3), (0, 3), (0, 6)]" by code_simp
  have nq: "\<not> canBlackCastleQueenside (initialGameState\<lparr>canBlackCastleQueenside := False\<rparr>)"
    by simp
  from castling_destinations [of castleBoard initialGameState
      "[(7, 5), (7, 3), (6, 3), (6, 4), (6, 5), (7, 6), (7, 2)]" "[]"] w mw
  have "canWhiteCastleKingside initialGameState \<and>
    cellAt castleBoard 7 5 = Inr [] \<and> cellAt castleBoard 7 6 = Inr [] \<and>
    cellAt castleBoard 7 7 = Inr ''wR'' \<and> isKingInCheck castleBoard True = Inr False \<and>
    isSquareUnderAttack 7 5 castleBoard False = Inr False \<and>
    isSquareUnderAttack 7 6 castleBoard False = Inr False \<and>
    (\<exists>t. testBoard castleBoard 7 4 (7, 6) = Inr t \<and> isKingInCheck t True = Inr False)"
    by simp
  with w mw k mk nq show ?thesis by blast
qed

text \<open>
  Without the last condition the equivalence does not hold. On \<open>pawnGuardBoard\<close> every other
  condition holds for the white king on (7,4) (on the board as it stands the black pawn on
  (6,7) has no move to the empty square (7,6)), and yet (7,6) is not returned, because with
  the king on (7,6) the pawn captures it.
\<close>

theorem castling_destinations_counterexample:
  "cellAt pawnGuardBoard 7 4 = Inr ''wK'' \<and>
   canWhiteCastleKingside initialGameState \<and>
   cellAt pawnGuardBoard 7 5 = Inr [] \<and> cellAt pawnGuardBoard 7 6 = Inr [] \<and>
   cellAt pawnGuardBoard 7 7 = Inr ''wR'' \<and>
   isKingInCheck pawnGuardBoard True = Inr False \<and>
   isSquareUnderAttack 7 5 pawnGuardBoard False = Inr False \<and>
   isSquareUnderAttack 7 6 pawnGuardBoard False = Inr False \<and>
   getPossibleMoves 7 4 pawnGuardBoard initialGameState =
     Inr [(7, 5), (7, 3), (6, 3), (6, 4), (6, 5)] \<and>
   ((7, 6) :: square) \<notin> set [(7, 5), (7, 3), (6, 3), (6, 4), (6, 5)]"
  by code_simp

subsection \<open>Moving the castling rook opens no attack\<close>

lemma rookShift_cell:
  assumes "rookShift T A s1 s2 x" "cellAt T r c = Inr y"
  shows "\<exists>y'. cellAt A r c = Inr y' \<and>
           (if (r, c) = s1 then y = x \<and> y' = []
            else if (r, c) = s2 then y = [] \<and> y' = x else y' = y)"
proof -
  from assms(1) have ne: "s1 \<noteq> s2" by (auto simp: rookShift_def)
  consider (s1) "(r, c) = s1" | (s2) "(r, c) \<noteq> s1" "(r, c) = s2"
    | (other) "(r, c) \<noteq> s1" "(r, c) \<noteq> s2" by blast
  then show ?thesis
  proof cases
    case s1
    with assms show ?thesis by (auto simp: rookShift_def)
  next
    case s2
    with assms show ?thesis by (auto simp: rookShift_def)
  next
    case other
    with assms show ?thesis by (simp add: rookShift_def)
  qed
qed

lemma rookShift_read:
  assumes "rookShift T A s1 s2 x" "onBoard (r, c)"
  shows "\<exists>y. cellAt T r c = Inr y"
  using assms by (auto simp: rookShift_def cellAt_def onBoard_def)

lemma corner_next_off:
  assumes "corner (r, c)" "onBoard (r - dr, c - dc)" "dr \<noteq> 0 \<or> dc \<noteq> 0"
  shows "\<not> onBoard (r + dr, c + dc)"
  using assms by (auto simp: corner_def onBoard_def)

lemma slide_shift:
  "rookShift T A s1 s2 x \<Longrightarrow> charAt x 0 \<noteq> charAt p 0 \<Longrightarrow>
   onBoard (r - dr, c - dc) \<Longrightarrow> slide T p dr dc r c = Inr ms \<Longrightarrow>
   \<exists>ms'. slide A p dr dc r c = Inr ms' \<and> set ms' \<subseteq> set ms"
proof (induction T p dr dc r c arbitrary: ms rule: slide.induct)
  case (1 T p dr dc r c)
  show ?case
  proof (cases "onBoard (r, c) \<and> (dr \<noteq> 0 \<or> dc \<noteq> 0)")
    case False
    then show ?thesis by (simp add: slide_out)
  next
    case True
    then have ob: "onBoard (r, c)" and d: "dr \<noteq> 0 \<or> dc \<noteq> 0" by auto
    from True have g: "r \<ge> 0 \<and> r < 8 \<and> c \<ge> 0 \<and> c < 8 \<and> (dr \<noteq> 0 \<or> dc \<noteq> 0)"
      by (simp add: onBoard_def)
    note unfT = slide_in [OF ob d, of T p]
    note unfA = slide_in [OF ob d, of A p]
    from "1.prems"(4) obtain y where y: "cellAt T r c = Inr y"
      unfolding unfT by (cases "cellAt T r c") auto
    from rookShift_cell [OF "1.prems"(1) y] obtain y' where
      y': "cellAt A r c = Inr y'" and
      rel: "if (r, c) = s1 then y = x \<and> y' = []
            else if (r, c) = s2 then y = [] \<and> y' = x else y' = y"
      by blast
    have xne: "x \<noteq> []" using "1.prems"(1) by (simp add: rookShift_def)
    consider (s1) "(r, c) = s1" | (s2) "(r, c) \<noteq> s1" "(r, c) = s2"
      | (other) "(r, c) \<noteq> s1" "(r, c) \<noteq> s2" by blast
    then show ?thesis
    proof cases
      case s1
      with rel have yx: "y = x" "y' = []" by auto
      from "1.prems"(1) s1 have "corner (r, c)" by (simp add: rookShift_def)
      from corner_next_off [OF this "1.prems"(3) d]
      have nxt: "slide A p dr dc (r + dr) (c + dc) = Inr []" by (simp add: slide_out)
      from "1.prems"(4) have "ms = [(r, c)]"
        unfolding unfT using y yx xne "1.prems"(2) by simp
      moreover have "slide A p dr dc r c = Inr [(r, c)]"
        unfolding unfA using y' yx nxt by simp
      ultimately show ?thesis by simp
    next
      case s2
      with rel have yx: "y = []" "y' = x" by auto
      from "1.prems"(4) have "(r, c) \<in> set ms"
        unfolding unfT using y yx by (auto split: sum.splits)
      moreover have "slide A p dr dc r c = Inr [(r, c)]"
        unfolding unfA using y' yx xne "1.prems"(2) by simp
      ultimately show ?thesis by simp
    next
      case other
      with rel have same: "y' = y" by auto
      show ?thesis
      proof (cases "y = []")
        case True
        from "1.prems"(4) obtain ms0 where
          ms0: "slide T p dr dc (r + dr) (c + dc) = Inr ms0" and ms: "ms = (r, c) # ms0"
          unfolding unfT using y True by (auto split: sum.splits)
        have "onBoard (r + dr - dr, c + dc - dc)" using ob by simp
        from "1.IH" [OF g y True "1.prems"(1,2) this ms0] obtain ms1 where
          "slide A p dr dc (r + dr) (c + dc) = Inr ms1" "set ms1 \<subseteq> set ms0" by blast
        then have "slide A p dr dc r c = Inr ((r, c) # ms1)" "set ((r, c) # ms1) \<subseteq> set ms"
          unfolding unfA using y' same True ms by auto
        then show ?thesis by blast
      next
        case False
        from "1.prems"(4) have "slide A p dr dc r c = Inr ms"
          unfolding unfT unfA using y y' same False by simp
        then show ?thesis by blast
      qed
    qed
  qed
qed

lemma slideDirs_shift:
  assumes "rookShift T A s1 s2 x" "charAt x 0 \<noteq> charAt p 0" "onBoard (row, col)"
  shows "slideDirs T p row col ds = Inr ms \<Longrightarrow>
         \<exists>ms'. slideDirs A p row col ds = Inr ms' \<and> set ms' \<subseteq> set ms"
proof (induction ds arbitrary: ms)
  case Nil
  then show ?case by simp
next
  case (Cons d ds)
  from Cons.prems obtain a rest where
    a: "slide T p (fst d) (snd d) (row + fst d) (col + snd d) = Inr a" and
    rest: "slideDirs T p row col ds = Inr rest" and ms: "ms = a @ rest"
    by (auto simp: bindE_eq_Inr)
  have "onBoard (row + fst d - fst d, col + snd d - snd d)" using assms(3) by simp
  from slide_shift [OF assms(1,2) this a] obtain a' where
    a': "slide A p (fst d) (snd d) (row + fst d) (col + snd d) = Inr a'" "set a' \<subseteq> set a"
    by blast
  from Cons.IH [OF rest] obtain rest' where
    "slideDirs A p row col ds = Inr rest'" "set rest' \<subseteq> set rest" by blast
  with a' ms show ?case by auto
qed

lemma stepMoves_shift:
  assumes "rookShift T A s1 s2 x" "charAt x 0 \<noteq> charAt p 0"
  shows "stepMoves T p row col offs = Inr ms \<Longrightarrow> stepMoves A p row col offs = Inr ms"
proof (induction offs arbitrary: ms)
  case Nil
  then show ?case by simp
next
  case (Cons off offs)
  show ?case
  proof (cases "row + fst off \<ge> 0 \<and> row + fst off < 8 \<and> col + snd off \<ge> 0 \<and> col + snd off < 8")
    case True
    from Cons.prems obtain y ms0 where
      y: "cellAt T (row + fst off) (col + snd off) = Inr y" and
      ms0: "stepMoves T p row col offs = Inr ms0" and
      ms: "ms = (if y = [] \<or> charAt y 0 \<noteq> charAt p 0
                 then (row + fst off, col + snd off) # ms0 else ms0)"
      by (auto simp: True Let_def bindE_eq_Inr)
    from rookShift_cell [OF assms(1) y] obtain y' where
      y': "cellAt A (row + fst off) (col + snd off) = Inr y'" and
      "(y' = [] \<or> charAt y' 0 \<noteq> charAt p 0) = (y = [] \<or> charAt y 0 \<noteq> charAt p 0)"
      using assms(2) by (auto split: if_splits)
    with Cons.IH [OF ms0] ms True show ?thesis
      by (simp add: Let_def)
  next
    case False
    with Cons.prems have "stepMoves T p row col offs = Inr ms" by (auto simp: Let_def)
    from Cons.IH [OF this] False show ?thesis by (auto simp: Let_def)
  qed
qed

lemma pawnCaptures_shift:
  assumes "rookShift T A s1 s2 x" "charAt x 0 \<noteq> charAt p 0"
  shows "pawnCaptures T p row col dir offs = Inr ms \<Longrightarrow>
         \<exists>ms'. pawnCaptures A p row col dir offs = Inr ms' \<and> set ms' \<subseteq> insert s2 (set ms)"
proof (induction offs arbitrary: ms)
  case Nil
  then show ?case by simp
next
  case (Cons off offs)
  show ?case
  proof (cases "col + off \<ge> 0 \<and> col + off < 8")
    case True
    from Cons.prems obtain y ms0 where
      y: "cellAt T (row + dir) (col + off) = Inr y" and
      ms0: "pawnCaptures T p row col dir offs = Inr ms0" and
      ms: "ms = (if y \<noteq> [] \<and> charAt y 0 \<noteq> charAt p 0
                 then (row + dir, col + off) # ms0 else ms0)"
      by (auto simp: True bindE_eq_Inr)
    from rookShift_cell [OF assms(1) y] obtain y' where
      y': "cellAt A (row + dir) (col + off) = Inr y'" and
      rel: "if (row + dir, col + off) = s1 then y = x \<and> y' = []
            else if (row + dir, col + off) = s2 then y = [] \<and> y' = x else y' = y"
      by blast
    from Cons.IH [OF ms0] obtain ms1 where
      ms1: "pawnCaptures A p row col dir offs = Inr ms1" "set ms1 \<subseteq> insert s2 (set ms0)"
      by blast
    have "pawnCaptures A p row col dir (off # offs) =
        Inr (if y' \<noteq> [] \<and> charAt y' 0 \<noteq> charAt p 0
             then (row + dir, col + off) # ms1 else ms1)"
      using True y' ms1(1) by simp
    moreover have "set (if y' \<noteq> [] \<and> charAt y' 0 \<noteq> charAt p 0
             then (row + dir, col + off) # ms1 else ms1) \<subseteq> insert s2 (set ms)"
      using rel ms ms1(2) by (auto split: if_splits)
    ultimately show ?thesis by blast
  next
    case False
    with Cons.prems have "pawnCaptures T p row col dir offs = Inr ms" by auto
    from Cons.IH [OF this] False show ?thesis by auto
  qed
qed

lemma pawnForward_shift:
  assumes rs: "rookShift T A s1 s2 x"
    and T: "pawnForward T row col (if w then -1 else 1) w = Inr ms"
  shows "\<exists>ms'. pawnForward A row col (if w then -1 else 1) w = Inr ms' \<and>
           set ms' \<subseteq> insert s1 (set ms)"
proof (cases "row + (if w then -1 else 1) \<ge> 0 \<and> row + (if w then -1 else 1) < 8")
  case False
  then show ?thesis by (auto simp: pawnForward_def)
next
  case True
  define dir :: int where "dir = (if w then -1 else 1)"
  have dir: "dir = -1 \<or> dir = 1" "w \<longleftrightarrow> dir = -1" by (auto simp: dir_def)
  from True have rng: "row + dir \<ge> 0 \<and> row + dir < 8" by (simp add: dir_def)
  from T have T': "pawnForward T row col dir w = Inr ms" by (simp add: dir_def)
  from T' rng obtain y where y: "cellAt T (row + dir) col = Inr y"
    by (auto simp: pawnForward_def bindE_eq_Inr)
  from rookShift_cell [OF rs y] obtain y' where
    y': "cellAt A (row + dir) col = Inr y'" and
    rel: "if (row + dir, col) = s1 then y = x \<and> y' = []
          else if (row + dir, col) = s2 then y = [] \<and> y' = x else y' = y"
    by blast
  from rs have xne: "x \<noteq> []" and c1: "corner s1" by (auto simp: rookShift_def)
  have start: "(row + dir, col) = s1 \<Longrightarrow> row \<noteq> (if w then 6 else 1)"
    using c1 dir by (auto simp: corner_def)
  have goal: "\<exists>ms'. pawnForward A row col dir w = Inr ms' \<and> set ms' \<subseteq> insert s1 (set ms)"
  proof (cases "y' = []")
    case False
    with rng y' show ?thesis by (simp add: pawnForward_def)
  next
    case e': True
    show ?thesis
    proof (cases "row = (if w then 6 else 1)")
      case False
      with rng y' e' have "pawnForward A row col dir w = Inr [(row + dir, col)]"
        by (simp add: pawnForward_def Let_def)
      moreover have "(row + dir, col) = s1 \<or> (row + dir, col) \<in> set ms"
        using T' rng y rel e' xne False by (auto simp: pawnForward_def Let_def split: if_splits)
      ultimately show ?thesis by auto
    next
      case True
      with start have n1: "(row + dir, col) \<noteq> s1" by blast
      with rel e' xne have e: "y = []" by (auto split: if_splits)
      from T' rng y e True obtain z where
        z: "cellAt T (row + 2 * dir) col = Inr z" and
        ms: "ms = (row + dir, col) # (if z = [] then [(row + 2 * dir, col)] else [])"
        by (auto simp: pawnForward_def Let_def bindE_eq_Inr)
      from rookShift_cell [OF rs z] obtain z' where
        z': "cellAt A (row + 2 * dir) col = Inr z'" and
        relz: "if (row + 2 * dir, col) = s1 then z = x \<and> z' = []
               else if (row + 2 * dir, col) = s2 then z = [] \<and> z' = x else z' = z"
        by blast
      from rng y' e' True z' have
        "pawnForward A row col dir w =
           Inr ((row + dir, col) # (if z' = [] then [(row + 2 * dir, col)] else []))"
        by (simp add: pawnForward_def Let_def)
      moreover have
        "set ((row + dir, col) # (if z' = [] then [(row + 2 * dir, col)] else []))
           \<subseteq> insert s1 (set ms)"
        using ms relz xne by (auto split: if_splits)
      ultimately show ?thesis by blast
    qed
  qed
  then show ?thesis by (simp add: dir_def)
qed

lemma pawnMoves_shift:
  assumes "rookShift T A s1 s2 x" "charAt x 0 \<noteq> charAt p 0"
    "pawnMoves T p row col = Inr ms"
  shows "\<exists>ms'. pawnMoves A p row col = Inr ms' \<and> set ms' \<subseteq> insert s1 (insert s2 (set ms))"
proof -
  from assms(3) obtain fw cp where
    fw: "pawnForward T row col (if charAt p 0 = ''w'' then -1 else 1)
           (charAt p 0 = ''w'') = Inr fw" and
    cp: "pawnCaptures T p row col (if charAt p 0 = ''w'' then -1 else 1) [-1, 1] = Inr cp" and
    ms: "ms = fw @ cp"
    by (auto simp: pawnMoves_def Let_def bindE_eq_Inr)
  from pawnForward_shift [OF assms(1) fw] obtain fw' where
    fw': "pawnForward A row col (if charAt p 0 = ''w'' then -1 else 1)
           (charAt p 0 = ''w'') = Inr fw'" "set fw' \<subseteq> insert s1 (set fw)"
    by blast
  from pawnCaptures_shift [OF assms(1,2) cp] obtain cp' where
    cp': "pawnCaptures A p row col (if charAt p 0 = ''w'' then -1 else 1) [-1, 1] = Inr cp'"
      "set cp' \<subseteq> insert s2 (set cp)"
    by blast
  from fw'(1) cp'(1) have "pawnMoves A p row col = Inr (fw' @ cp')"
    by (simp add: pawnMoves_def Let_def)
  moreover from fw'(2) cp'(2) ms have "set (fw' @ cp') \<subseteq> insert s1 (insert s2 (set ms))"
    by auto
  ultimately show ?thesis by blast
qed

lemma pieceMoves_shift:
  assumes rs: "rookShift T A s1 s2 x" and en: "charAt x 0 \<noteq> charAt p 0"
    and ob: "onBoard (row, col)" and T: "pieceMoves T p row col = Inr ms"
  shows "\<exists>ms'. pieceMoves A p row col = Inr ms' \<and> set ms' \<subseteq> insert s1 (insert s2 (set ms))"
proof -
  consider (P) "charAt p 1 = ''P''" | (R) "charAt p 1 = ''R''"
    | (N) "charAt p 1 = ''N''" | (B) "charAt p 1 = ''B''"
    | (Q) "charAt p 1 = ''Q''" | (K) "charAt p 1 = ''K''"
    | (other) "charAt p 1 \<notin> {''P'', ''R'', ''N'', ''B'', ''Q'', ''K''}"
    by blast
  then show ?thesis
  proof cases
    case P
    with T have "pawnMoves T p row col = Inr ms" by (simp add: pieceMoves_P)
    from pawnMoves_shift [OF rs en this] P show ?thesis by (simp add: pieceMoves_P)
  next
    case R
    with T have "slideDirs T p row col rookDirs = Inr ms" by (simp add: pieceMoves_R)
    from slideDirs_shift [OF rs en ob this] R show ?thesis by (auto simp: pieceMoves_R)
  next
    case N
    with T have "stepMoves T p row col knightOffsets = Inr ms" by (simp add: pieceMoves_N)
    from stepMoves_shift [OF rs en this] N show ?thesis by (auto simp: pieceMoves_N)
  next
    case B
    with T have "slideDirs T p row col bishopDirs = Inr ms" by (simp add: pieceMoves_B)
    from slideDirs_shift [OF rs en ob this] B show ?thesis by (auto simp: pieceMoves_B)
  next
    case Q
    with T obtain m2 m4 where
      m2: "slideDirs T p row col rookDirs = Inr m2" and
      m4: "slideDirs T p row col bishopDirs = Inr m4" and ms: "ms = m2 @ m4"
      by (auto simp: pieceMoves_Q bindE_eq_Inr)
    from slideDirs_shift [OF rs en ob m2] obtain m2' where
      m2': "slideDirs A p row col rookDirs = Inr m2'" "set m2' \<subseteq> set m2" by blast
    from slideDirs_shift [OF rs en ob m4] obtain m4' where
      m4': "slideDirs A p row col bishopDirs = Inr m4'" "set m4' \<subseteq> set m4" by blast
    from Q m2'(1) m4'(1) have "pieceMoves A p row col = Inr (m2' @ m4')"
      by (simp add: pieceMoves_Q)
    moreover from m2'(2) m4'(2) ms have "set (m2' @ m4') \<subseteq> insert s1 (insert s2 (set ms))"
      by auto
    ultimately show ?thesis by blast
  next
    case K
    with T have "stepMoves T p row col kingOffsets = Inr ms" by (simp add: pieceMoves_K)
    from stepMoves_shift [OF rs en this] K show ?thesis by (auto simp: pieceMoves_K)
  next
    case other
    with T show ?thesis by (simp add: pieceMoves_other)
  qed
qed

lemma attackScan_shift:
  assumes rs: "rookShift T A s1 s2 x" and col: "(charAt x 0 = ''w'') \<noteq> byWhite"
    and k: "(kr, kc) \<noteq> s1" "(kr, kc) \<noteq> s2"
  shows "\<forall>sq\<in>set sqs. onBoard sq \<Longrightarrow> attackScan sqs kr kc T byWhite = Inr False \<Longrightarrow>
         attackScan sqs kr kc A byWhite = Inr False"
proof (induction sqs)
  case Nil
  then show ?case by simp
next
  case (Cons sq sqs)
  from Cons.prems(1) have ob: "onBoard (fst sq, snd sq)" and rest: "\<forall>sq\<in>set sqs. onBoard sq"
    by auto
  from rookShift_read [OF rs ob] obtain y where y: "cellAt T (fst sq) (snd sq) = Inr y"
    by blast
  from rookShift_cell [OF rs y] obtain y' where
    y': "cellAt A (fst sq) (snd sq) = Inr y'" and
    rel: "if (fst sq, snd sq) = s1 then y = x \<and> y' = []
          else if (fst sq, snd sq) = s2 then y = [] \<and> y' = x else y' = y"
    by blast
  show ?case
  proof (cases "y \<noteq> [] \<and> (charAt y 0 = ''w'') = byWhite")
    case True
    with rel col have same: "y' = y" by (auto split: if_splits)
    from True col have en: "charAt x 0 \<noteq> charAt y 0" by auto
    from Cons.prems(2) y True obtain ms where
      ms: "pieceMoves T y (fst sq) (snd sq) = Inr ms" and out: "(kr, kc) \<notin> set ms" and
      tl: "attackScan sqs kr kc T byWhite = Inr False"
      by (auto simp: bindE_eq_Inr getRawPossibleMoves_def split: if_splits)
    from pieceMoves_shift [OF rs en ob ms] obtain ms' where
      ms': "pieceMoves A y (fst sq) (snd sq) = Inr ms'"
        "set ms' \<subseteq> insert s1 (insert s2 (set ms))"
      by blast
    with out k have "(kr, kc) \<notin> set ms'" by auto
    with Cons.IH [OF rest tl] y' same True ms'(1) show ?thesis
      by (simp add: getRawPossibleMoves_def)
  next
    case False
    with Cons.prems(2) y have tl: "attackScan sqs kr kc T byWhite = Inr False"
      by (auto split: if_splits)
    from False rel col have "\<not> (y' \<noteq> [] \<and> (charAt y' 0 = ''w'') = byWhite)"
      by (auto split: if_splits)
    with Cons.IH [OF rest tl] y' show ?thesis by auto
  qed
qed

lemma findKingIn_shift:
  assumes rs: "rookShift T A s1 s2 x" and kp: "kp \<noteq> x" "kp \<noteq> []"
  shows "\<forall>sq\<in>set sqs. onBoard sq \<Longrightarrow> findKingIn sqs A kp = findKingIn sqs T kp"
proof (induction sqs)
  case Nil
  then show ?case by simp
next
  case (Cons sq sqs)
  from Cons.prems have ob: "onBoard (fst sq, snd sq)" and rest: "\<forall>sq\<in>set sqs. onBoard sq"
    by auto
  from rookShift_read [OF rs ob] obtain y where y: "cellAt T (fst sq) (snd sq) = Inr y"
    by blast
  from rookShift_cell [OF rs y] kp obtain y' where
    "cellAt A (fst sq) (snd sq) = Inr y'" "(y' = kp) = (y = kp)"
    by (auto split: if_splits)
  with Cons.IH [OF rest] y show ?case by simp
qed

lemma findKingIn_holds:
  "findKingIn sqs b kp = Inr (Some k) \<Longrightarrow> cellAt b (fst k) (snd k) = Inr kp"
  by (induction sqs) (auto simp: bindE_eq_Inr split: if_splits)

lemma all_onBoard: "\<forall>sq\<in>set allSquares. onBoard sq"
  by (simp add: set_allSquares)

lemma isKingInCheck_shift:
  assumes rs: "rookShift T A s1 s2 x" and kp: "kingPiece w \<noteq> x"
    and col: "(charAt x 0 = ''w'') = w" and T: "isKingInCheck T w = Inr False"
  shows "isKingInCheck A w = Inr False"
proof -
  have kne: "kingPiece w \<noteq> []" by (simp add: kingPiece_def)
  from findKingIn_shift [OF rs kp kne all_onBoard]
  have fk: "findKing A w = findKing T w" by (simp add: findKing_def)
  from T obtain kpos where kpos: "findKing T w = Inr kpos"
    by (auto simp: isKingInCheck_def bindE_eq_Inr)
  show ?thesis
  proof (cases kpos)
    case None
    with fk kpos show ?thesis by (simp add: isKingInCheck_def)
  next
    case (Some k)
    from kpos Some have here: "cellAt T (fst k) (snd k) = Inr (kingPiece w)"
      by (auto simp: findKing_def dest: findKingIn_holds)
    from rs have "cellAt T (fst s1) (snd s1) = Inr x" "cellAt T (fst s2) (snd s2) = Inr []"
      by (auto simp: rookShift_def)
    with here kp kne have k: "(fst k, snd k) \<noteq> s1" "(fst k, snd k) \<noteq> s2" by auto
    from T kpos Some have "attackScan allSquares (fst k) (snd k) T (\<not> w) = Inr False"
      by (simp add: isKingInCheck_def isSquareUnderAttack_def)
    from attackScan_shift [OF rs _ k all_onBoard this] col
    have "attackScan allSquares (fst k) (snd k) A (\<not> w) = Inr False" by auto
    with fk kpos Some show ?thesis
      by (simp add: isKingInCheck_def isSquareUnderAttack_def)
  qed
qed

subsection \<open>A legal move never leaves the mover's king in check\<close>

lemma setCell_Inr_iff: "(\<exists>b'. setCell b r c v = Inr b') \<longleftrightarrow> 0 \<le> r \<and> r < int (length b)"
  by (auto simp: setCell_def)

lemma cellAt_Inr_iff: "(\<exists>y. cellAt b r c = Inr y) \<longleftrightarrow> 0 \<le> r \<and> r < int (length b)"
  by (auto simp: cellAt_def)

lemma testBoard_row:
  "testBoard b row col m = Inr t \<Longrightarrow> 0 \<le> fst m \<and> fst m < int (length b) \<and> length t = length b"
  by (auto simp: testBoard_def bindE_eq_Inr setCell_def split: if_splits)

lemma applyMove_eq:
  "updateGameState fr fc tr tc b g = Inr (b1, g1) \<Longrightarrow> setCell b1 tr tc p = Inr b2 \<Longrightarrow>
   setCell b2 fr fc [] = Inr b3 \<Longrightarrow> applyMove fr fc tr tc p b g = Inr (b3, g1)"
  by (simp add: applyMove_def)

lemma updateGameState_board:
  assumes "cellAt b fr fc = Inr piece" "kingMoved piece fr fc tc b g = Inr (b1, g1)"
    "0 \<le> tr" "tr < int (length b1)"
  shows "\<exists>g'. updateGameState fr fc tr tc b g = Inr (b1, g')"
proof -
  from assms(3,4) obtain y where "cellAt b1 tr tc = Inr y"
    using cellAt_Inr_iff [of b1 tr tc] by blast
  with assms(1,2) show ?thesis by (simp add: updateGameState_def)
qed

text \<open>Without a rook to move, the applied board is the filter's test board.\<close>

lemma applyMove_plain:
  assumes p: "cellAt b row col = Inr piece"
    and t: "testBoard b row col m = Inr t"
    and k: "kingMoved piece row col (snd m) b g = Inr (b, g1)"
  shows "\<exists>g'. applyMove row col (fst m) (snd m) piece b g = Inr (t, g')"
proof -
  from testBoard_row [OF t] have "0 \<le> fst m" "fst m < int (length b)" by auto
  from updateGameState_board [OF p k this] obtain g' where
    u: "updateGameState row col (fst m) (snd m) b g = Inr (b, g')" by blast
  from t p obtain b2 where
    "setCell b (fst m) (snd m) piece = Inr b2" "setCell b2 row col [] = Inr t"
    by (auto simp: testBoard_def bindE_eq_Inr)
  from applyMove_eq [OF u this] show ?thesis by blast
qed

text \<open>With the rook moved, the applied board differs from the test board by that rook.\<close>

lemma castle_shift:
  assumes len: "length b = 8" and kr: "kr = 0 \<or> kr = 7" and cf: "cf = 0 \<or> cf = 7"
    and cols: "ct \<noteq> cf" "kc \<noteq> cf" "kc \<noteq> ct" "cf \<noteq> 4" "ct \<noteq> 4" "0 \<le> ct" "0 \<le> kc"
    and x: "cellAt b kr cf = Inr x" "x \<noteq> []" and e: "cellAt b kr ct = Inr []"
    and p: "cellAt b kr 4 = Inr p"
    and t: "testBoard b kr 4 (kr, kc) = Inr t"
    and b1: "moveRook b kr ct cf = Inr b1"
    and b2: "setCell b1 kr kc p = Inr b2" and b3: "setCell b2 kr 4 [] = Inr b3"
  shows "rookShift t b3 (kr, cf) (kr, ct) x"
proof -
  from t p obtain ta where ta: "setCell b kr kc p = Inr ta" and tt: "setCell ta kr 4 [] = Inr t"
    by (auto simp: testBoard_def bindE_eq_Inr)
  from b1 x obtain ba where ba: "setCell b kr ct x = Inr ba" and bb: "setCell ba kr cf [] = Inr b1"
    by (auto simp: moveRook_def bindE_eq_Inr)
  have cf0: "0 \<le> cf" using cf by auto
  have T: "cellAt t r c = (if r = kr \<and> c = 4 then Inr []
                           else if r = kr \<and> c = kc then Inr p else cellAt b r c)" for r c
    using cols by (simp add: cellAt_setCell [OF tt] cellAt_setCell [OF ta])
  have A: "cellAt b3 r c = (if r = kr \<and> c = 4 then Inr []
                            else if r = kr \<and> c = kc then Inr p
                            else if r = kr \<and> c = cf then Inr []
                            else if r = kr \<and> c = ct then Inr x else cellAt b r c)" for r c
    using cols cf0
    by (simp add: cellAt_setCell [OF b3] cellAt_setCell [OF b2] cellAt_setCell [OF bb]
          cellAt_setCell [OF ba])
  have lt: "length t = 8" using length_setCell [OF tt] length_setCell [OF ta] len by simp
  have la: "length b3 = 8"
    using length_setCell [OF b3] length_setCell [OF b2] length_setCell [OF bb]
      length_setCell [OF ba] len by simp
  have c: "corner (kr, cf)" using kr cf by (simp add: corner_def)
  have 1: "cellAt t kr cf = Inr x" using T [of kr cf] cols x by simp
  have 2: "cellAt b3 kr cf = Inr []" using A [of kr cf] cols by simp
  have 3: "cellAt t kr ct = Inr []" using T [of kr ct] cols e by simp
  have 4: "cellAt b3 kr ct = Inr x" using A [of kr ct] cols by simp
  have 5: "\<forall>r c. (r, c) \<noteq> (kr, cf) \<and> (r, c) \<noteq> (kr, ct) \<longrightarrow> cellAt b3 r c = cellAt t r c"
    by (simp add: T A)
  from lt la c x(2) 1 2 3 4 5 show ?thesis by (simp add: rookShift_def)
qed

lemma castle_safe:
  assumes len: "length b = 8" and kr: "kr = 0 \<or> kr = 7" and cf: "cf = 0 \<or> cf = 7"
    and cols: "ct \<noteq> cf" "kc \<noteq> cf" "kc \<noteq> ct" "cf \<noteq> 4" "ct \<noteq> 4" "0 \<le> ct" "0 \<le> kc"
    and x: "cellAt b kr cf = Inr x" "x \<noteq> []" and e: "cellAt b kr ct = Inr []"
    and p: "cellAt b kr 4 = Inr p"
    and t: "testBoard b kr 4 (kr, kc) = Inr t" and safe: "isKingInCheck t w = Inr False"
    and xc: "(charAt x 0 = ''w'') = w" "kingPiece w \<noteq> x"
    and k: "kingMoved p kr 4 kc b g = Inr (b1, g1)" and b1: "moveRook b kr ct cf = Inr b1"
  shows "\<exists>b' g'. applyMove kr 4 kr kc p b g = Inr (b', g') \<and> isKingInCheck b' w = Inr False"
proof -
  from kr len have row: "0 \<le> kr" "kr < int (length b)" by auto
  from b1 have l1: "length b1 = length b"
    by (auto simp: moveRook_def bindE_eq_Inr dest!: length_setCell)
  with row obtain b2 where b2: "setCell b1 kr kc p = Inr b2"
    using setCell_Inr_iff [of b1 kr kc p] by auto
  with row l1 obtain b3 where b3: "setCell b2 kr 4 [] = Inr b3"
    using setCell_Inr_iff [of b2 kr 4 "[]"] length_setCell [OF b2] by auto
  from row l1 have "0 \<le> kr" "kr < int (length b1)" by auto
  from updateGameState_board [OF p k this] obtain g' where
    "updateGameState kr 4 kr kc b g = Inr (b1, g')" by blast
  from applyMove_eq [OF this b2 b3] have "applyMove kr 4 kr kc p b g = Inr (b3, g')" .
  moreover from castle_shift [OF len kr cf cols x e p t b1 b2 b3]
  have "rookShift t b3 (kr, cf) (kr, ct) x" .
  from isKingInCheck_shift [OF this xc(2) xc(1) safe] have "isKingInCheck b3 w = Inr False" .
  ultimately show ?thesis by blast
qed

lemma moveRook_ok:
  assumes "length b = 8" "kr = 0 \<or> kr = 7"
  shows "\<exists>b1. moveRook b kr ct cf = Inr b1"
proof -
  from assms have row: "0 \<le> kr" "kr < int (length b)" by auto
  then obtain x where x: "cellAt b kr cf = Inr x"
    using cellAt_Inr_iff [of b kr cf] by blast
  from row obtain ba where ba: "setCell b kr ct x = Inr ba"
    using setCell_Inr_iff [of b kr ct x] by blast
  from row length_setCell [OF ba] obtain b1 where "setCell ba kr cf [] = Inr b1"
    using setCell_Inr_iff [of ba kr cf "[]"] by auto
  with x ba show ?thesis by (simp add: moveRook_def)
qed

lemma castle_apply:
  assumes len: "length b = 8" and kr: "kr = 0 \<or> kr = 7" and cf: "cf = 0 \<or> cf = 7"
    and cols: "ct \<noteq> cf" "kc \<noteq> cf" "kc \<noteq> ct" "cf \<noteq> 4" "ct \<noteq> 4" "0 \<le> ct" "0 \<le> kc"
    and x: "cellAt b kr cf = Inr x" "x \<noteq> []" and e: "cellAt b kr ct = Inr []"
    and p: "cellAt b kr 4 = Inr p"
    and t: "testBoard b kr 4 (kr, kc) = Inr t" and safe: "isKingInCheck t w = Inr False"
    and xc: "(charAt x 0 = ''w'') = w" "kingPiece w \<noteq> x"
    and km: "\<And>b1. moveRook b kr ct cf = Inr b1 \<Longrightarrow> \<exists>g1. kingMoved p kr 4 kc b g = Inr (b1, g1)"
  shows "\<exists>b' g'. applyMove kr 4 kr kc p b g = Inr (b', g') \<and> isKingInCheck b' w = Inr False"
proof -
  from moveRook_ok [OF len kr] obtain b1 where b1: "moveRook b kr ct cf = Inr b1" by blast
  from km [OF b1] obtain g1 where k: "kingMoved p kr 4 kc b g = Inr (b1, g1)" by blast
  from castle_safe [OF len kr cf cols x e p t safe xc k b1] show ?thesis .
qed

text \<open>A king on column 4 reaches column 6 or 2 by castling only.\<close>

lemma white_king_far:
  assumes "cellAt b 7 4 = Inr ''wK''" "getPossibleMoves 7 4 b g = Inr ms" "m \<in> set ms"
    "snd m = 6 \<or> snd m = 2"
  shows "m = (7, 6) \<or> m = (7, 2)"
proof -
  have k: "charAt ''wK'' 1 = ''K''" and w: "(charAt ''wK'' 0 = ''w'') = True"
    by (simp_all add: charAt_def)
  obtain castle where c: "castlingMoves b g (charAt ''wK'' 0 = ''w'') = Inr castle"
    using getPossibleMoves_king [OF assms(1) k assms(2)] by blast
  from king_castle_mem [OF assms(1) k assms(2) c assms(4)] assms(3)
  have "m \<in> set castle" by simp
  moreover from c have "castlingMoves b g True = Inr castle" by (simp only: w)
  from castlingMoves_white [OF this] have "set castle \<subseteq> {(7, 6), (7, 2)}" by simp
  ultimately show ?thesis by auto
qed

lemma black_king_far:
  assumes "cellAt b 0 4 = Inr ''bK''" "getPossibleMoves 0 4 b g = Inr ms" "m \<in> set ms"
    "snd m = 6 \<or> snd m = 2"
  shows "m = (0, 6) \<or> m = (0, 2)"
proof -
  have k: "charAt ''bK'' 1 = ''K''" and w: "(charAt ''bK'' 0 = ''w'') = False"
    by (simp_all add: charAt_def)
  obtain castle where c: "castlingMoves b g (charAt ''bK'' 0 = ''w'') = Inr castle"
    using getPossibleMoves_king [OF assms(1) k assms(2)] by blast
  from king_castle_mem [OF assms(1) k assms(2) c assms(4)] assms(3)
  have "m \<in> set castle" by simp
  moreover from c have "castlingMoves b g False = Inr castle" by (simp only: w)
  from castlingMoves_black [OF this] have "set castle \<subseteq> {(0, 6), (0, 2)}" by simp
  ultimately show ?thesis by auto
qed

lemma kingMoved_cases:
  obtains (plain) g1 where "kingMoved piece row col tc b g = Inr (b, g1)"
  | (white) "piece = ''wK''" "row = 7" "col = 4" "tc = 6 \<or> tc = 2"
  | (black) "piece = ''bK''" "row = 0" "col = 4" "tc = 6 \<or> tc = 2"
proof (cases "piece = ''wK'' \<and> row = 7 \<and> col = 4 \<and> (tc = 6 \<or> tc = 2)")
  case True
  then show ?thesis using white by blast
next
  case nw: False
  show ?thesis
  proof (cases "piece = ''bK'' \<and> row = 0 \<and> col = 4 \<and> (tc = 6 \<or> tc = 2)")
    case True
    then show ?thesis using black by blast
  next
    case False
    with nw have "\<exists>g1. kingMoved piece row col tc b g = Inr (b, g1)"
      by (auto simp: kingMoved_def)
    then show ?thesis using plain by blast
  qed
qed

lemma legal_move_safe:
  assumes len: "length b = 8" and p: "cellAt b row col = Inr piece"
    and gp: "getPossibleMoves row col b g = Inr ms" and m: "m \<in> set ms"
  shows "\<exists>b' g'. applyMove row col (fst m) (snd m) piece b g = Inr (b', g') \<and>
           isKingInCheck b' (charAt piece 0 = ''w'') = Inr False"
proof -
  from gp m obtain raw castle piece' where
    "cellAt b row col = Inr piece'"
    "filterMoves (raw @ castle) row col b (charAt piece' 0 = ''w'') = Inr ms"
    by (rule getPossibleMoves_candidates)
  with p have f: "filterMoves (raw @ castle) row col b (charAt piece 0 = ''w'') = Inr ms"
    by simp
  from filterMoves_mem [OF f, of m] m obtain t where
    t: "testBoard b row col m = Inr t" and
    safe: "isKingInCheck t (charAt piece 0 = ''w'') = Inr False"
    by blast
  show ?thesis
  proof (cases rule: kingMoved_cases [of piece row col "snd m" b g])
    case (plain g1)
    from applyMove_plain [OF p t plain] safe show ?thesis by blast
  next
    case white
    have w: "(charAt ''wK'' 0 = ''w'') = True" "(charAt ''wR'' 0 = ''w'') = True"
      "kingPiece True \<noteq> ''wR''"
      by (simp_all add: charAt_def kingPiece_def)
    from p gp white have pk: "cellAt b 7 4 = Inr ''wK''" and
      gk: "getPossibleMoves 7 4 b g = Inr ms" by simp_all
    from safe white w have safe': "isKingInCheck t True = Inr False" by simp
    from white_king_far [OF pk gk m white(4)] show ?thesis
    proof
      assume m76: "m = (7, 6)"
      from white_king_castling [OF pk gk] m m76
      have "whiteKingsideOK b g = Inr True" by simp
      then have c: "cellAt b 7 7 = Inr ''wR''" "cellAt b 7 5 = Inr []"
        by (simp_all add: whiteKingsideOK_iff)
      from t white m76 have t': "testBoard b 7 4 (7, 6) = Inr t" by simp
      have "\<exists>b' g'. applyMove 7 4 7 6 ''wK'' b g = Inr (b', g') \<and>
              isKingInCheck b' True = Inr False"
        by (rule castle_apply [OF len _ _ _ _ _ _ _ _ _ c(1) _ c(2) pk t' safe' w(2,3)])
           (simp_all add: kingMoved_def)
      with white m76 w show ?thesis by simp
    next
      assume m72: "m = (7, 2)"
      from white_king_castling [OF pk gk] m m72
      have "whiteQueensideOK b g = Inr True" by simp
      then have c: "cellAt b 7 0 = Inr ''wR''" "cellAt b 7 3 = Inr []"
        by (simp_all add: whiteQueensideOK_iff)
      from t white m72 have t': "testBoard b 7 4 (7, 2) = Inr t" by simp
      have "\<exists>b' g'. applyMove 7 4 7 2 ''wK'' b g = Inr (b', g') \<and>
              isKingInCheck b' True = Inr False"
        by (rule castle_apply [OF len _ _ _ _ _ _ _ _ _ c(1) _ c(2) pk t' safe' w(2,3)])
           (simp_all add: kingMoved_def)
      with white m72 w show ?thesis by simp
    qed
  next
    case black
    have w: "(charAt ''bK'' 0 = ''w'') = False" "(charAt ''bR'' 0 = ''w'') = False"
      "kingPiece False \<noteq> ''bR''"
      by (simp_all add: charAt_def kingPiece_def)
    from p gp black have pk: "cellAt b 0 4 = Inr ''bK''" and
      gk: "getPossibleMoves 0 4 b g = Inr ms" by simp_all
    from safe black w have safe': "isKingInCheck t False = Inr False" by simp
    from black_king_far [OF pk gk m black(4)] show ?thesis
    proof
      assume m06: "m = (0, 6)"
      from black_king_castling [OF pk gk] m m06
      have "blackKingsideOK b g = Inr True" by simp
      then have c: "cellAt b 0 7 = Inr ''bR''" "cellAt b 0 5 = Inr []"
        by (simp_all add: blackKingsideOK_iff)
      from t black m06 have t': "testBoard b 0 4 (0, 6) = Inr t" by simp
      have "\<exists>b' g'. applyMove 0 4 0 6 ''bK'' b g = Inr (b', g') \<and>
              isKingInCheck b' False = Inr False"
        by (rule castle_apply [OF len _ _ _ _ _ _ _ _ _ c(1) _ c(2) pk t' safe' w(2,3)])
           (simp_all add: kingMoved_def)
      with black m06 w show ?thesis by simp
    next
      assume m02: "m = (0, 2)"
      from black_king_castling [OF pk gk] m m02
      have "blackQueensideOK b g = Inr True" by simp
      then have c: "cellAt b 0 0 = Inr ''bR''" "cellAt b 0 3 = Inr []"
        by (simp_all add: blackQueensideOK_iff)
      from t black m02 have t': "testBoard b 0 4 (0, 2) = Inr t" by simp
      have "\<exists>b' g'. applyMove 0 4 0 2 ''bK'' b g = Inr (b', g') \<and>
              isKingInCheck b' False = Inr False"
        by (rule castle_apply [OF len _ _ _ _ _ _ _ _ _ c(1) _ c(2) pk t' safe' w(2,3)])
           (simp_all add: kingMoved_def)
      with black m02 w show ?thesis by simp
    qed
  qed
qed

text \<open>
  C1. On a board of eight rows, for every rights record and every square holding a piece:
  each destination returned by \<open>getPossibleMoves\<close> for that square can be applied
  (\<open>updateGameState\<close> with its castling rook move, then the destination receives the piece and
  the origin is cleared), and on the resulting board \<open>isKingInCheck\<close> for the mover's colour
  returns \<open>false\<close>.
\<close>

theorem legal_move_keeps_king_safe:
  assumes "length b = 8" "cellAt b row col = Inr piece"
    "getPossibleMoves row col b g = Inr ms" "m \<in> set ms"
  shows "\<exists>b' g'. applyMove row col (fst m) (snd m) piece b g = Inr (b', g') \<and>
           isKingInCheck b' (charAt piece 0 = ''w'') = Inr False"
  using assms by (rule legal_move_safe)

theorem legal_move_keeps_king_safe_witness:
  "length castleBoard = 8 \<and> cellAt castleBoard 7 4 = Inr ''wK'' \<and>
   getPossibleMoves 7 4 castleBoard initialGameState =
     Inr [(7, 5), (7, 3), (6, 3), (6, 4), (6, 5), (7, 6), (7, 2)] \<and>
   ((7, 6) :: square) \<in> set [(7, 5), (7, 3), (6, 3), (6, 4), (6, 5), (7, 6), (7, 2)] \<and>
   (\<exists>b' g'. applyMove 7 4 7 6 ''wK'' castleBoard initialGameState = Inr (b', g') \<and>
            isKingInCheck b' True = Inr False)"
proof -
  have l: "length castleBoard = 8" by (simp add: castleBoard_def)
  have p: "cellAt castleBoard 7 4 = Inr ''wK''" by code_simp
  have g: "getPossibleMoves 7 4 castleBoard initialGameState =
      Inr [(7, 5), (7, 3), (6, 3), (6, 4), (6, 5), (7, 6), (7, 2)]" by code_simp
  have m: "((7, 6) :: square) \<in> set [(7, 5), (7, 3), (6, 3), (6, 4), (6, 5), (7, 6), (7, 2)]"
    by simp
  have w: "(charAt ''wK'' 0 = ''w'') = True" by (simp add: charAt_def)
  from legal_move_keeps_king_safe [OF l p g m] w
  have "\<exists>b' g'. applyMove 7 4 7 6 ''wK'' castleBoard initialGameState = Inr (b', g') \<and>
            isKingInCheck b' True = Inr False"
    by simp
  with l p g m show ?thesis by blast
qed

subsection \<open>The computer's move when only one move is legal\<close>

lemma randomIndex_one: "0 \<le> u \<Longrightarrow> u < 1 \<Longrightarrow> randomIndex u (Suc 0) = 0"
  by (simp add: randomIndex_def floor_eq_iff)

lemma distinct_allSquares: "distinct allSquares"
  by code_simp

lemma collectBlack_none:
  "\<forall>sq\<in>set sqs. blackCannotMove b g sq \<Longrightarrow> collectBlack sqs b g = Inr []"
proof (induction sqs)
  case Nil
  then show ?case by simp
next
  case (Cons sq sqs)
  from Cons.prems have "blackCannotMove b g sq" by simp
  then obtain q where q: "cellAt b (fst sq) (snd sq) = Inr q"
    "q \<noteq> [] \<and> charAt q 0 = ''b'' \<longrightarrow> getPossibleMoves (fst sq) (snd sq) b g = Inr []"
    by (auto simp: blackCannotMove_def split: sum.splits)
  from Cons.IH Cons.prems have "collectBlack sqs b g = Inr []" by simp
  with q show ?case by auto
qed

lemma collectBlack_one:
  assumes p: "cellAt b r c = Inr p" "p \<noteq> []" "charAt p 0 = ''b''"
    and ms: "getPossibleMoves r c b g = Inr ms" "ms \<noteq> []"
  shows "distinct sqs \<Longrightarrow> (r, c) \<in> set sqs \<Longrightarrow>
         \<forall>sq\<in>set sqs. sq \<noteq> (r, c) \<longrightarrow> blackCannotMove b g sq \<Longrightarrow>
         collectBlack sqs b g = Inr [(r, c, p, ms)]"
proof (induction sqs)
  case Nil
  then show ?case by simp
next
  case (Cons sq sqs)
  show ?case
  proof (cases "sq = (r, c)")
    case True
    with Cons.prems have "\<forall>s\<in>set sqs. blackCannotMove b g s" by auto
    from collectBlack_none [OF this] True p ms show ?thesis by simp
  next
    case False
    with Cons.prems have "blackCannotMove b g sq" by simp
    then obtain q where q: "cellAt b (fst sq) (snd sq) = Inr q"
      "q \<noteq> [] \<and> charAt q 0 = ''b'' \<longrightarrow> getPossibleMoves (fst sq) (snd sq) b g = Inr []"
      by (auto simp: blackCannotMove_def split: sum.splits)
    from Cons.prems False have "collectBlack sqs b g = Inr [(r, c, p, ms)]"
      by (intro Cons.IH) auto
    with q show ?thesis by auto
  qed
qed

text \<open>A pawn move changes the row.\<close>

lemma pawnCaptures_row:
  "pawnCaptures b p row col dir offs = Inr ms \<Longrightarrow> m \<in> set ms \<Longrightarrow> fst m = row + dir"
proof (induction offs arbitrary: ms)
  case Nil
  then show ?case by simp
next
  case (Cons off offs)
  show ?case
  proof (cases "col + off \<ge> 0 \<and> col + off < 8")
    case True
    from Cons.prems(1) obtain ms' where
      ms': "pawnCaptures b p row col dir offs = Inr ms'" and
      "set ms \<subseteq> insert (row + dir, col + off) (set ms')"
      by (auto simp: True bindE_eq_Inr split: if_splits)
    with Cons.prems(2) Cons.IH [OF ms'] show ?thesis by auto
  next
    case False
    with Cons.prems(1) have "pawnCaptures b p row col dir offs = Inr ms" by auto
    from Cons.IH [OF this Cons.prems(2)] show ?thesis .
  qed
qed

lemma pawnForward_row:
  "pawnForward b row col dir w = Inr ms \<Longrightarrow> m \<in> set ms \<Longrightarrow>
   fst m = row + dir \<or> fst m = row + 2 * dir"
  by (auto simp: pawnForward_def Let_def bindE_eq_Inr split: if_splits)

lemma pawnMoves_row:
  assumes "pawnMoves b p row col = Inr ms" "m \<in> set ms"
  shows "fst m \<noteq> row"
proof -
  define dir :: int where "dir = (if charAt p 0 = ''w'' then -1 else 1)"
  have dir: "dir = -1 \<or> dir = 1" by (simp add: dir_def)
  from assms(1) obtain fw cp where
    fw: "pawnForward b row col dir (charAt p 0 = ''w'') = Inr fw" and
    cp: "pawnCaptures b p row col dir [-1, 1] = Inr cp" and ms: "ms = fw @ cp"
    by (auto simp: pawnMoves_def Let_def bindE_eq_Inr dir_def)
  from assms(2) ms have "m \<in> set fw \<or> m \<in> set cp" by auto
  then have "fst m = row + dir \<or> fst m = row + 2 * dir"
    using pawnForward_row [OF fw] pawnCaptures_row [OF cp] by blast
  with dir show ?thesis by auto
qed

lemma pawn_legal_row:
  assumes "cellAt b row col = Inr p" "charAt p 1 = ''P''"
    "getPossibleMoves row col b g = Inr ms" "m \<in> set ms"
  shows "fst m \<noteq> row"
proof -
  from assms(3,4) obtain raw castle piece where
    c: "cellAt b row col = Inr piece" "piece \<noteq> []"
       "getRawPossibleMoves row col b = Inr raw"
       "(if charAt piece 1 = ''K'' then castlingMoves b g (charAt piece 0 = ''w'') else Inr [])
          = Inr castle"
       "filterMoves (raw @ castle) row col b (charAt piece 0 = ''w'') = Inr ms"
    by (rule getPossibleMoves_candidates)
  from c(1) assms(1) have pp: "piece = p" by simp
  with c(4) assms(2) have "castle = []" by simp
  with filterMoves_subset [OF c(5)] assms(4) have "m \<in> set raw" by auto
  moreover from c(3) c(1,2) pp assms(2) have "pawnMoves b p row col = Inr raw"
    by (simp add: getRawPossibleMoves_def pieceMoves_P)
  ultimately show ?thesis using pawnMoves_row by blast
qed

lemma applyMove_target:
  assumes "applyMove fr fc tr tc p b g = Inr (b', g')" "0 \<le> tc"
  shows "cellAt b' tr tc = (if tr = fr \<and> tc = fc then Inr [] else Inr p)"
proof -
  from assms(1) obtain b1 g1 b2 where
    b2: "setCell b1 tr tc p = Inr b2" and b3: "setCell b2 fr fc [] = Inr b'"
    by (auto simp: applyMove_def bindE_eq_Inr)
  from assms(2) show ?thesis
    by (simp add: cellAt_setCell [OF b3] cellAt_setCell [OF b2])
qed

text \<open>
  C8. On a board of eight rows where one black piece has exactly one legal move and every
  other square holds no black piece with a legal move, \<open>makeComputerMove\<close> returns, whatever
  the two random draws, the board and rights of that move applied; and when the piece is a
  black pawn arriving on row 7, the returned board holds a black queen on the destination.
\<close>

theorem makeComputerMove_single_choice:
  assumes len: "length b = 8" and ob: "onBoard (r, c)"
    and p: "cellAt b r c = Inr p" "p \<noteq> []" "charAt p 0 = ''b''"
    and one: "getPossibleMoves r c b g = Inr [m]"
    and others: "\<forall>sq\<in>set allSquares. sq \<noteq> (r, c) \<longrightarrow> blackCannotMove b g sq"
    and draws: "0 \<le> u1" "u1 < 1" "0 \<le> u2" "u2 < 1"
  shows "\<exists>nb ng. applyMove r c (fst m) (snd m) p b g = Inr (nb, ng) \<and>
           (if charAt p 1 = ''P'' \<and> fst m = 7
            then \<exists>q. promotePawn (fst m) (snd m) nb ''Q'' = Inr q \<and>
                     makeComputerMove b g u1 u2 = Inr (q, ng) \<and>
                     cellAt q (fst m) (snd m) = Inr ''bQ''
            else makeComputerMove b g u1 u2 = Inr (nb, ng))"
proof -
  have mem: "m \<in> set [m]" by simp
  from legal_move_safe [OF len p(1) one mem] obtain nb ng where
    ap: "applyMove r c (fst m) (snd m) p b g = Inr (nb, ng)" by blast
  from getPossibleMoves_onBoard [OF len ob one mem] have mb: "onBoard m" .
  then have m0: "0 \<le> snd m" by (simp add: onBoard_def)
  have "(r, c) \<in> set allSquares" using ob by (simp add: set_allSquares)
  from collectBlack_one [OF p one _ distinct_allSquares this others]
  have cb: "collectBlack allSquares b g = Inr [(r, c, p, [m])]" by simp
  have mk: "makeComputerMove b g u1 u2 =
      bindE (canPromotePawn (fst m) (snd m) nb) (\<lambda>promo.
        if promo then
          bindE (promotePawn (fst m) (snd m) nb ''Q'') (\<lambda>promoted. Inr (promoted, ng))
        else Inr (nb, ng))"
    using cb ap draws
    by (simp add: makeComputerMove_def randomIndex_one Let_def cong: if_cong)
  note tgt = applyMove_target [OF ap m0]
  show ?thesis
  proof (cases "charAt p 1 = ''P'' \<and> fst m = 7")
    case True
    from pawn_legal_row [OF p(1) _ one mem] True have "fst m \<noteq> r" by simp
    with tgt have cell: "cellAt nb (fst m) (snd m) = Inr p" by simp
    with True p have cp: "canPromotePawn (fst m) (snd m) nb = Inr True"
      by (simp add: canPromotePawn_def)
    from promotePawn_pawn [OF cell p(2), of "''Q''"] True p(3) obtain q where
      q: "promotePawn (fst m) (snd m) nb ''Q'' = Inr q"
         "cellAt q (fst m) (snd m) = Inr ''bQ''"
      by auto
    from mk cp q(1) have "makeComputerMove b g u1 u2 = Inr (q, ng)" by simp
    with ap q True show ?thesis by auto
  next
    case False
    have "canPromotePawn (fst m) (snd m) nb = Inr False"
    proof (cases "fst m = r \<and> snd m = c")
      case True
      with tgt show ?thesis by (simp add: canPromotePawn_def)
    next
      case nf: False
      with tgt have "cellAt nb (fst m) (snd m) = Inr p" by auto
      with False p show ?thesis by (auto simp: canPromotePawn_def)
    qed
    with mk have "makeComputerMove b g u1 u2 = Inr (nb, ng)" by simp
    with ap False show ?thesis by auto
  qed
qed

theorem makeComputerMove_single_choice_witness:
  "length promoBoard = 8 \<and> onBoard (6, 7) \<and> cellAt promoBoard 6 7 = Inr ''bP'' \<and>
   getPossibleMoves 6 7 promoBoard initialGameState = Inr [(7, 7)] \<and>
   list_all (\<lambda>sq. sq = (6, 7) \<or> blackCannotMove promoBoard initialGameState sq) allSquares \<and>
   (\<exists>nb ng q. applyMove 6 7 7 7 ''bP'' promoBoard initialGameState = Inr (nb, ng) \<and>
      promotePawn 7 7 nb ''Q'' = Inr q \<and>
      makeComputerMove promoBoard initialGameState (1 / 2) (1 / 3) = Inr (q, ng) \<and>
      cellAt q 7 7 = Inr ''bQ'') \<and>
   makeComputerMove promoBoard initialGameState (1 / 2) (1 / 3) =
     Inr (promotedBoard, initialGameState)"
proof -
  have l: "length promoBoard = 8" by (simp add: promoBoard_def)
  have o: "onBoard (6, 7)" by (simp add: onBoard_def)
  have p: "cellAt promoBoard 6 7 = Inr ''bP''" by code_simp
  have c: "''bP'' \<noteq> []" "charAt ''bP'' 0 = ''b''" "charAt ''bP'' 1 = ''P''"
    by (simp_all add: charAt_def)
  have g: "getPossibleMoves 6 7 promoBoard initialGameState = Inr [(7, 7)]" by code_simp
  have a: "list_all (\<lambda>sq. sq = (6, 7) \<or> blackCannotMove promoBoard initialGameState sq)
             allSquares"
    by code_simp
  then have a': "\<forall>sq\<in>set allSquares. sq \<noteq> (6, 7) \<longrightarrow>
      blackCannotMove promoBoard initialGameState sq"
    by (auto simp: list_all_iff)
  have e: "makeComputerMove promoBoard initialGameState (1 / 2) (1 / 3) =
      Inr (promotedBoard, initialGameState)"
    by code_simp
  from makeComputerMove_single_choice [OF l o p c(1,2) g a', of "1 / 2" "1 / 3"] c(3)
  have "\<exists>nb ng q. applyMove 6 7 7 7 ''bP'' promoBoard initialGameState = Inr (nb, ng) \<and>
      promotePawn 7 7 nb ''Q'' = Inr q \<and>
      makeComputerMove promoBoard initialGameState (1 / 2) (1 / 3) = Inr (q, ng) \<and>
      cellAt q 7 7 = Inr ''bQ''"
    by auto
  with l o p g a e show ?thesis by blast
qed

subsection \<open>What a call leaves untouched\<close>

lemma ext_refl: "n \<le> length h \<Longrightarrow> ext n h h"
  by (simp add: ext_def)

lemma ext_trans: "ext n h h1 \<Longrightarrow> ext n h1 h2 \<Longrightarrow> ext n h h2"
  by (auto simp: ext_def)

lemma ext_len: "ext n h h' \<Longrightarrow> n \<le> length h'"
  by (simp add: ext_def)

lemma rowsAt_append: "rowsAt h a = Some rs \<Longrightarrow> rowsAt (h @ xs) a = Some rs"
  by (auto simp: rowsAt_def nth_append split: if_splits)

lemma ext_alloc:
  assumes "n \<le> length h" "alloc h x = (h', a)"
  shows "ext n h h' \<and> a = length h"
  using assms by (auto simp: alloc_def ext_def rowsAt_append)

lemma rowsAt_update_Cells:
  assumes "cellsAt h ra = Some cs" "rowsAt h a = Some rs"
  shows "rowsAt (h[ra := Cells cs']) a = Some rs"
proof -
  from assms have "a \<noteq> ra"
    by (auto simp: cellsAt_def rowsAt_def split: if_splits obj.splits)
  with assms(2) show ?thesis by (auto simp: rowsAt_def split: if_splits)
qed

lemma rowsAt_update_Rights:
  assumes "rightsAt h ga = Some g" "rowsAt h a = Some rs"
  shows "rowsAt (h[ga := Rights g']) a = Some rs"
proof -
  from assms have "a \<noteq> ga"
    by (auto simp: rightsAt_def rowsAt_def split: if_splits obj.splits)
  with assms(2) show ?thesis by (auto simp: rowsAt_def split: if_splits)
qed

lemma ext_writeCell:
  assumes n: "n \<le> length h" and f: "freshRows n h a" and w: "writeCell h a r c v = Inr h'"
  shows "ext n h h'"
proof -
  from f obtain rs where rs: "rowsAt h a = Some rs" "\<forall>ra\<in>set rs. n \<le> ra"
    by (auto simp: freshRows_def)
  from w rs(1) obtain cs where
    r: "0 \<le> r" "r < int (length rs)" and cs: "cellsAt h (rs ! nat r) = Some cs" and
    h': "h' = h[rs ! nat r := Cells (setSlot cs c v)]"
    by (auto simp: writeCell_def split: if_splits option.splits)
  from r have "rs ! nat r \<in> set rs" by (simp add: nat_less_iff)
  with rs(2) have "n \<le> rs ! nat r" by blast
  then have "take n h' = take n h" by (simp add: h')
  moreover have "\<forall>a rs. rowsAt h a = Some rs \<longrightarrow> rowsAt h' a = Some rs"
    using rowsAt_update_Cells [OF cs] by (simp add: h')
  ultimately show ?thesis using n by (simp add: ext_def h')
qed

lemma ext_updRights: "n \<le> length h \<Longrightarrow> n \<le> a \<Longrightarrow> ext n h (updRights h a f)"
  by (auto simp: updRights_def ext_def rowsAt_update_Rights split: option.splits)

lemma freshRows_ext: "freshRows n h a \<Longrightarrow> ext n h h' \<Longrightarrow> freshRows n h' a"
  by (auto simp: freshRows_def ext_def)

lemma copyRows_ext:
  "n \<le> length h \<Longrightarrow> copyRows h rs = Inr (h', as) \<Longrightarrow>
   ext n h h' \<and> (\<forall>a\<in>set as. length h \<le> a)"
proof (induction rs arbitrary: h h' as)
  case Nil
  then show ?case by (simp add: ext_refl)
next
  case (Cons ra ras)
  from Cons.prems(2) obtain cs h2 as' where
    cs: "cellsAt h ra = Some cs" and
    rec: "copyRows (h @ [Cells cs]) ras = Inr (h2, as')" and
    res: "h' = h2" "as = length h # as'"
    by (auto simp: alloc_def bindE_eq_Inr split: option.splits)
  have a: "ext n h (h @ [Cells cs])"
    using ext_alloc [OF Cons.prems(1), of "Cells cs"] by (simp add: alloc_def)
  from Cons.prems(1) have "n \<le> length (h @ [Cells cs])" by simp
  from Cons.IH [OF this rec] have
    "ext n (h @ [Cells cs]) h2" "\<forall>a\<in>set as'. length (h @ [Cells cs]) \<le> a" by auto
  with a res show ?case by (auto intro: ext_trans)
qed

lemma mapCopy_ext:
  assumes "n \<le> length h" "mapCopy h a = Inr (h', a')"
  shows "ext n h h' \<and> freshRows n h' a' \<and> n \<le> a'"
proof -
  from assms(2) obtain rs h1 as where
    c: "copyRows h rs = Inr (h1, as)" and res: "h' = h1 @ [Rows as]" "a' = length h1"
    by (auto simp: mapCopy_def alloc_def bindE_eq_Inr split: option.splits)
  from copyRows_ext [OF assms(1) c] have e: "ext n h h1" and f: "\<forall>a\<in>set as. length h \<le> a"
    by auto
  from ext_len [OF e] have n1: "n \<le> length h1" .
  have "ext n h1 h'" using ext_alloc [OF n1, of "Rows as"] by (simp add: alloc_def res)
  with e have "ext n h h'" by (rule ext_trans)
  moreover have "rowsAt h' a' = Some as" by (simp add: res rowsAt_def)
  with f assms(1) have "freshRows n h' a'" by (auto simp: freshRows_def)
  ultimately show ?thesis using n1 res by simp
qed

lemma spread_ext:
  assumes "n \<le> length h" "freshRows n h a" "spread h a = Inr (h', a')"
  shows "ext n h h' \<and> freshRows n h' a' \<and> n \<le> a'"
proof -
  from assms(3) obtain rs where
    rs: "rowsAt h a = Some rs" and res: "h' = h @ [Rows rs]" "a' = length h"
    by (auto simp: spread_def alloc_def split: option.splits)
  have "ext n h h'" using ext_alloc [OF assms(1), of "Rows rs"] by (simp add: alloc_def res)
  moreover have "rowsAt h' a' = Some rs" by (simp add: res rowsAt_def)
  with assms(2) rs have "freshRows n h' a'" by (auto simp: freshRows_def)
  ultimately show ?thesis using assms(1) res by simp
qed

lemma filterMovesH_ext:
  "n \<le> length h \<Longrightarrow> filterMovesH cands row col h ba w = Inr (h', valid) \<Longrightarrow> ext n h h'"
proof (induction cands arbitrary: h valid)
  case Nil
  then show ?case by (simp add: ext_refl)
next
  case (Cons move rest)
  from Cons.prems(2) obtain h1 ta p h2 h3 v where
    c: "mapCopy h ba = Inr (h1, ta)" and
    w1: "writeCell h1 ta (fst move) (snd move) p = Inr h2" and
    w2: "writeCell h2 ta row col [] = Inr h3" and
    rec: "filterMovesH rest row col h3 ba w = Inr (h', v)"
    by (auto simp: bindE_eq_Inr)
  from mapCopy_ext [OF Cons.prems(1) c] have e1: "ext n h h1" and f1: "freshRows n h1 ta"
    by auto
  from ext_writeCell [OF ext_len [OF e1] f1 w1] have e2: "ext n h1 h2" .
  from ext_writeCell [OF ext_len [OF e2] freshRows_ext [OF f1 e2] w2] have e3: "ext n h2 h3" .
  from Cons.IH [OF ext_len [OF e3] rec] have "ext n h3 h'" .
  with e1 e2 e3 show ?case by (blast intro: ext_trans)
qed

lemma getPossibleMovesH_ext:
  assumes "n \<le> length h" "getPossibleMovesH row col h ba ga = Inr (h', ms)"
  shows "ext n h h'"
proof -
  from assms(2) obtain piece where
    "piece = [] \<and> h' = h \<or>
     (\<exists>cands. filterMovesH cands row col h ba (charAt piece 0 = ''w'') = Inr (h', ms))"
    by (auto simp: getPossibleMovesH_def Let_def bindE_eq_Inr split: if_splits)
  then show ?thesis
    using ext_refl [OF assms(1)] filterMovesH_ext [OF assms(1)] by blast
qed

lemma collectBlackH_ext:
  "n \<le> length h \<Longrightarrow> collectBlackH sqs h ba ga = Inr (h', ps) \<Longrightarrow> ext n h h'"
proof (induction sqs arbitrary: h ps)
  case Nil
  then show ?case by (simp add: ext_refl)
next
  case (Cons sq sqs)
  from Cons.prems(2) have
    "(\<exists>ps'. collectBlackH sqs h ba ga = Inr (h', ps')) \<or>
     (\<exists>h1 ms ps'. getPossibleMovesH (fst sq) (snd sq) h ba ga = Inr (h1, ms) \<and>
        collectBlackH sqs h1 ba ga = Inr (h', ps'))"
    by (auto simp: bindE_eq_Inr split: if_splits)
  then show ?case
  proof
    assume "\<exists>ps'. collectBlackH sqs h ba ga = Inr (h', ps')"
    with Cons.IH [OF Cons.prems(1)] show ?thesis by blast
  next
    assume "\<exists>h1 ms ps'. getPossibleMovesH (fst sq) (snd sq) h ba ga = Inr (h1, ms) \<and>
        collectBlackH sqs h1 ba ga = Inr (h', ps')"
    then obtain h1 ms ps' where
      g: "getPossibleMovesH (fst sq) (snd sq) h ba ga = Inr (h1, ms)" and
      r: "collectBlackH sqs h1 ba ga = Inr (h', ps')" by blast
    from getPossibleMovesH_ext [OF Cons.prems(1) g] have e: "ext n h h1" .
    from Cons.IH [OF ext_len [OF e] r] e show ?thesis by (blast intro: ext_trans)
  qed
qed

lemma moveRookH_ext:
  assumes "n \<le> length h" "freshRows n h ba" "moveRookH h ba r ct cf = Inr h'"
  shows "ext n h h'"
proof -
  from assms(3) obtain x h1 where
    w1: "writeCell h ba r ct x = Inr h1" and w2: "writeCell h1 ba r cf [] = Inr h'"
    by (auto simp: moveRookH_def bindE_eq_Inr)
  from ext_writeCell [OF assms(1,2) w1] have e1: "ext n h h1" .
  from ext_writeCell [OF ext_len [OF e1] freshRows_ext [OF assms(2) e1] w2] e1
  show ?thesis by (blast intro: ext_trans)
qed

lemma kingMovedH_ext:
  assumes n: "n \<le> length h" and f: "freshRows n h ba" and na: "n \<le> na"
    and k: "kingMovedH piece fr fc tc h ba na = Inr h'"
  shows "ext n h h'"
proof -
  from k obtain upd where
    "h' = h \<or> h' = updRights h na upd \<or>
     (\<exists>r ct cf. moveRookH (updRights h na upd) ba r ct cf = Inr h')"
    by (auto simp: kingMovedH_def split: if_splits)
  moreover have e: "ext n h (updRights h na upd)" for upd
    using ext_updRights [OF n na] .
  moreover have "ext n h h'" if "moveRookH (updRights h na upd) ba r ct cf = Inr h'"
    for upd r ct cf
    using moveRookH_ext [OF ext_len [OF e] freshRows_ext [OF f e] that] e
    by (blast intro: ext_trans)
  ultimately show ?thesis using ext_refl [OF n] by blast
qed

lemma updateGameStateH_ext:
  assumes n: "n \<le> length h" and f: "freshRows n h ba"
    and u: "updateGameStateH fr fc tr tc h ba ga = Inr (h', na)"
  shows "ext n h h' \<and> n \<le> na"
proof -
  from u obtain g piece h1 upd where
    na: "na = length h" and
    k: "kingMovedH piece fr fc tc (h @ [Rights g]) ba na = Inr h1" and
    h': "h' = updRights h1 na upd"
    by (auto simp: updateGameStateH_def alloc_def bindE_eq_Inr split: option.splits)
  have e0: "ext n h (h @ [Rights g])"
    using ext_alloc [OF n, of "Rights g"] by (simp add: alloc_def)
  from n na have nna: "n \<le> na" by simp
  from kingMovedH_ext [OF ext_len [OF e0] freshRows_ext [OF f e0] nna k]
  have e1: "ext n (h @ [Rights g]) h1" .
  from ext_updRights [OF ext_len [OF e1] nna] have "ext n h1 h'" by (simp add: h')
  with e0 e1 nna show ?thesis by (blast intro: ext_trans)
qed

lemma promotePawnH_ext:
  assumes "n \<le> length h" "freshRows n h ba" "promotePawnH row col h ba k = Inr h'"
  shows "ext n h h'"
proof -
  from assms(3) have "h' = h \<or> (\<exists>v. writeCell h ba row col v = Inr h')"
    by (auto simp: promotePawnH_def bindE_eq_Inr split: if_splits)
  then show ?thesis
    using ext_refl [OF assms(1)] ext_writeCell [OF assms(1,2)] by blast
qed

lemma applySelectedH_ext:
  assumes n: "n \<le> length h" and f: "freshRows n h nb"
    and a: "applySelectedH h nb ngs selRow selCol selPiece tm = Inr (h', nb', ng')"
  shows "ext n h h' \<and> nb' = nb \<and> n \<le> ng'"
proof -
  from a obtain h5 h6 h7 where
    u: "updateGameStateH selRow selCol (fst tm) (snd tm) h nb ngs = Inr (h5, ng')" and
    w1: "writeCell h5 nb (fst tm) (snd tm) selPiece = Inr h6" and
    w2: "writeCell h6 nb selRow selCol [] = Inr h7" and
    fin: "h' = h7 \<or> promotePawnH (fst tm) (snd tm) h7 nb ''Q'' = Inr h'" and
    nb: "nb' = nb"
    by (auto simp: applySelectedH_def bindE_eq_Inr split: if_splits)
  from updateGameStateH_ext [OF n f u] have e5: "ext n h h5" and ng: "n \<le> ng'" by auto
  note f5 = freshRows_ext [OF f e5]
  from ext_writeCell [OF ext_len [OF e5] f5 w1] have e6: "ext n h5 h6" .
  note f6 = freshRows_ext [OF f5 e6]
  from ext_writeCell [OF ext_len [OF e6] f6 w2] have e7: "ext n h6 h7" .
  note f7 = freshRows_ext [OF f6 e7]
  from fin have "ext n h7 h'"
    using ext_refl [OF ext_len [OF e7]] promotePawnH_ext [OF ext_len [OF e7] f7] by blast
  with e5 e6 e7 nb ng show ?thesis by (blast intro: ext_trans)
qed

lemma chosen_ext:
  assumes n: "n \<le> length h" and f: "freshRows n h nb" and ngs: "n \<le> ngs"
    and a: "(if bps \<noteq> [] then
               (case bps ! i of
                  (selRow, selCol, selPiece, selMoves) \<Rightarrow>
                    applySelectedH h nb ngs selRow selCol selPiece (selMoves ! j selMoves))
             else Inr (h, nb, ngs)) = Inr (h', nb', ng')"
  shows "ext n h h' \<and> nb' = nb \<and> n \<le> ng'"
proof (cases "bps \<noteq> []")
  case False
  with a ngs ext_refl [OF n] show ?thesis by simp
next
  case True
  obtain selRow selCol selPiece selMoves where
    sel: "bps ! i = (selRow, selCol, selPiece, selMoves)"
    by (cases "bps ! i") auto
  with a True have
    "applySelectedH h nb ngs selRow selCol selPiece (selMoves ! j selMoves) = Inr (h', nb', ng')"
    by simp
  from applySelectedH_ext [OF n f this] show ?thesis .
qed

lemma makeComputerMoveH_ext:
  assumes "makeComputerMoveH h board gameState u1 u2 = Inr (h', nb, ng)"
  shows "ext (length h) h h' \<and> freshRows (length h) h' nb \<and> length h \<le> nb \<and> length h \<le> ng"
proof -
  define n where "n = length h"
  have n: "n \<le> length h" by (simp add: n_def)
  from assms obtain h1 mapped h2 newBoard g h4 bps where
    c: "mapCopy h board = Inr (h1, mapped)" and
    s: "spread h1 mapped = Inr (h2, newBoard)" and
    cb: "collectBlackH allSquares (h2 @ [Rights g]) board gameState = Inr (h4, bps)" and
    fin: "(if bps \<noteq> [] then
             (case bps ! randomIndex u1 (length bps) of
                (selRow, selCol, selPiece, selMoves) \<Rightarrow>
                  applySelectedH h4 newBoard (length h2) selRow selCol selPiece
                    (selMoves ! randomIndex u2 (length selMoves)))
           else Inr (h4, newBoard, length h2)) = Inr (h', nb, ng)"
    by (auto simp: makeComputerMoveH_def alloc_def bindE_eq_Inr split: option.splits)
  from mapCopy_ext [OF n c] have e1: "ext n h h1" and f1: "freshRows n h1 mapped" by auto
  from spread_ext [OF ext_len [OF e1] f1 s] have
    e2: "ext n h1 h2" and f2: "freshRows n h2 newBoard" and nb: "n \<le> newBoard" by auto
  have e3: "ext n h2 (h2 @ [Rights g])"
    using ext_alloc [OF ext_len [OF e2], of "Rights g"] by (simp add: alloc_def)
  from collectBlackH_ext [OF ext_len [OF e3] cb] have e4: "ext n (h2 @ [Rights g]) h4" .
  from e1 e2 e3 e4 have e: "ext n h h4" by (blast intro: ext_trans)
  have f4: "freshRows n h4 newBoard"
    using freshRows_ext [OF freshRows_ext [OF f2 e3] e4] .
  from chosen_ext [where i = "randomIndex u1 (length bps)"
        and j = "\<lambda>ms. randomIndex u2 (length ms)",
      OF ext_len [OF e] f4 ext_len [OF e2] fin]
  have e': "ext n h4 h'" and "nb = newBoard" "n \<le> ng" by auto
  with e f4 nb freshRows_ext [OF f4 e'] show ?thesis
    by (auto simp: n_def intro: ext_trans)
qed

lemma cellsAt_ext: "ext (length h) h h' \<Longrightarrow> cellsAt h a = Some cs \<Longrightarrow> cellsAt h' a = Some cs"
proof -
  assume e: "ext (length h) h h'" and c: "cellsAt h a = Some cs"
  from c have a: "a < length h" by (auto simp: cellsAt_def split: if_splits)
  from e have "take (length h) h' = h" "length h \<le> length h'" by (auto simp: ext_def)
  with a have "h' ! a = h ! a" "a < length h'"
    by (metis nth_take, simp)
  with c a show ?thesis by (simp add: cellsAt_def)
qed

lemma rightsAt_ext:
  "ext (length h) h h' \<Longrightarrow> rightsAt h a = Some g \<Longrightarrow> rightsAt h' a = Some g"
proof -
  assume e: "ext (length h) h h'" and c: "rightsAt h a = Some g"
  from c have a: "a < length h" by (auto simp: rightsAt_def split: if_splits)
  from e have "take (length h) h' = h" "length h \<le> length h'" by (auto simp: ext_def)
  with a have "h' ! a = h ! a" "a < length h'"
    by (metis nth_take, simp)
  with c a show ?thesis by (simp add: rightsAt_def)
qed

lemma rowsOf_ext: "ext (length h) h h' \<Longrightarrow> rowsOf h rs = Some b \<Longrightarrow> rowsOf h' rs = Some b"
proof (induction rs arbitrary: b)
  case Nil
  then show ?case by simp
next
  case (Cons ra ras)
  from Cons.prems(2) obtain cs rest where
    cs: "cellsAt h ra = Some cs" and rest: "rowsOf h ras = Some rest" and b: "b = cs # rest"
    by (auto split: option.splits)
  from cellsAt_ext [OF Cons.prems(1) cs] Cons.IH [OF Cons.prems(1) rest] b
  show ?case by simp
qed

lemma boardAt_ext: "ext (length h) h h' \<Longrightarrow> boardAt h a = Some b \<Longrightarrow> boardAt h' a = Some b"
proof -
  assume e: "ext (length h) h h'" and b: "boardAt h a = Some b"
  from b obtain rs where rs: "rowsAt h a = Some rs" "rowsOf h rs = Some b"
    by (auto simp: boardAt_def split: option.splits)
  from e rs(1) have "rowsAt h' a = Some rs" by (simp add: ext_def)
  with rowsOf_ext [OF e rs(2)] show ?thesis by (simp add: boardAt_def)
qed

subsection \<open>The heap functions compute what the functions on values compute\<close>

lemma holds_boardAt: "holds h a b \<Longrightarrow> boardAt h a = Some b"
  by (auto simp: holds_def boardAt_def)

lemma withBoard_holds: "holds h a b \<Longrightarrow> withBoard h a f = f b"
  by (simp add: withBoard_def holds_boardAt)

lemma withBoard_boardAt: "boardAt h a = Some b \<Longrightarrow> withBoard h a f = f b"
  by (simp add: withBoard_def)

lemma rowsOf_length: "rowsOf h rs = Some b \<Longrightarrow> length b = length rs"
  by (induction rs arbitrary: b) (auto split: option.splits)

lemma rowsOf_nth:
  "rowsOf h rs = Some b \<Longrightarrow> i < length rs \<Longrightarrow> cellsAt h (rs ! i) = Some (b ! i)"
proof (induction rs arbitrary: b i)
  case Nil
  then show ?case by simp
next
  case (Cons ra ras)
  from Cons.prems(1) obtain cs rest where
    "cellsAt h ra = Some cs" "rowsOf h ras = Some rest" "b = cs # rest"
    by (auto split: option.splits)
  with Cons.IH [of rest] Cons.prems(2) show ?case by (cases i) auto
qed

lemma cellsAt_update_other: "ra \<noteq> a \<Longrightarrow> cellsAt (h[ra := x]) a = cellsAt h a"
  by (simp add: cellsAt_def)

lemma cellsAt_update_same:
  "cellsAt h ra = Some cs \<Longrightarrow> cellsAt (h[ra := Cells cs']) ra = Some cs'"
  by (auto simp: cellsAt_def split: if_splits)

lemma rowsOf_update_other: "ra \<notin> set rs \<Longrightarrow> rowsOf (h[ra := x]) rs = rowsOf h rs"
  by (induction rs) (auto simp: cellsAt_update_other split: option.splits)

lemma rowsOf_update:
  "rowsOf h rs = Some b \<Longrightarrow> distinct rs \<Longrightarrow> i < length rs \<Longrightarrow>
   rowsOf (h[rs ! i := Cells cs']) rs = Some (b[i := cs'])"
proof (induction rs arbitrary: b i)
  case Nil
  then show ?case by simp
next
  case (Cons ra ras)
  from Cons.prems(1) obtain cs rest where
    cs: "cellsAt h ra = Some cs" and rest: "rowsOf h ras = Some rest" and b: "b = cs # rest"
    by (auto split: option.splits)
  show ?case
  proof (cases i)
    case 0
    from Cons.prems(2) have "ra \<notin> set ras" by simp
    from rowsOf_update_other [OF this] rest cs 0 b show ?thesis
      by (simp add: cellsAt_update_same)
  next
    case (Suc j)
    with Cons.prems(2,3) have j: "j < length ras" "distinct ras" "ras ! j \<noteq> ra" by auto
    from Cons.IH [OF rest j(2) j(1)] cs j(3) Suc b show ?thesis
      by (simp add: cellsAt_update_other)
  qed
qed

lemma holds_write:
  assumes h: "holds h a b" and w: "writeCell h a r c v = Inr h'"
  shows "\<exists>b'. setCell b r c v = Inr b' \<and> holds h' a b'"
proof -
  from h obtain rs where rs: "rowsAt h a = Some rs" "distinct rs" "rowsOf h rs = Some b"
    by (auto simp: holds_def)
  from w rs(1) obtain cs where
    r: "0 \<le> r" "r < int (length rs)" and cs: "cellsAt h (rs ! nat r) = Some cs" and
    h': "h' = h[rs ! nat r := Cells (setSlot cs c v)]"
    by (auto simp: writeCell_def split: if_splits option.splits)
  from r have i: "nat r < length rs" by simp
  from rowsOf_nth [OF rs(3) i] cs have cs': "cs = b ! nat r" by simp
  from rowsOf_length [OF rs(3)] r have "setCell b r c v = Inr (b[nat r := setSlot (b ! nat r) c v])"
    by (simp add: setCell_def)
  moreover have "rowsAt h' a = Some rs"
    using rowsAt_update_Cells [OF cs rs(1)] by (simp add: h')
  moreover have "rowsOf h' rs = Some (b[nat r := setSlot (b ! nat r) c v])"
    using rowsOf_update [OF rs(3,2) i] by (simp add: h' cs')
  ultimately show ?thesis using rs(2) by (auto simp: holds_def)
qed

lemma rightsAt_write: "writeCell h a r c v = Inr h' \<Longrightarrow> rightsAt h' na = rightsAt h na"
  by (auto simp: writeCell_def rightsAt_def cellsAt_def nth_list_update
           split: option.splits if_splits obj.splits)

lemma cellsAt_updRights: "cellsAt (updRights h na f) a = cellsAt h a"
  by (auto simp: updRights_def cellsAt_def rightsAt_def nth_list_update
           split: option.splits if_splits obj.splits)

lemma rowsAt_updRights: "rowsAt (updRights h na f) a = rowsAt h a"
  by (auto simp: updRights_def rowsAt_def rightsAt_def nth_list_update
           split: option.splits if_splits obj.splits)

lemma rowsOf_updRights: "rowsOf (updRights h na f) rs = rowsOf h rs"
  by (induction rs) (auto simp: cellsAt_updRights split: option.splits)

lemma holds_updRights: "holds h a b \<Longrightarrow> holds (updRights h na f) a b"
  by (simp add: holds_def rowsAt_updRights rowsOf_updRights)

lemma rightsAt_updRights:
  "rightsAt h na = Some g \<Longrightarrow> rightsAt (updRights h na f) na = Some (f g)"
  by (auto simp: updRights_def rightsAt_def split: if_splits)

lemma cellsAt_append: "cellsAt h a = Some cs \<Longrightarrow> cellsAt (h @ xs) a = Some cs"
  by (auto simp: cellsAt_def nth_append split: if_splits)

lemma rowsOf_append: "rowsOf h rs = Some b \<Longrightarrow> rowsOf (h @ xs) rs = Some b"
  by (induction rs arbitrary: b) (auto simp: cellsAt_append split: option.splits)

lemma holds_append: "holds h a b \<Longrightarrow> holds (h @ xs) a b"
  by (auto simp: holds_def rowsAt_append rowsOf_append)

lemma rightsAt_append: "rightsAt h a = Some g \<Longrightarrow> rightsAt (h @ xs) a = Some g"
  by (auto simp: rightsAt_def nth_append split: if_splits)

lemma holds_ext:
  assumes "ext (length h) h h'" "holds h a b"
  shows "holds h' a b"
proof -
  from assms(2) obtain rs where rs: "rowsAt h a = Some rs" "distinct rs" "rowsOf h rs = Some b"
    by (auto simp: holds_def)
  from assms(1) rs(1) have "rowsAt h' a = Some rs" by (simp add: ext_def)
  with rowsOf_ext [OF assms(1) rs(3)] rs(2) show ?thesis by (auto simp: holds_def)
qed

text \<open>A copy is a board of the same value with rows of its own.\<close>

lemma copyRows_value:
  "rowsOf h rs = Some b \<Longrightarrow> copyRows h rs = Inr (h', as) \<Longrightarrow>
   rowsOf h' as = Some b \<and> distinct as \<and> (\<forall>a\<in>set as. length h \<le> a)"
proof (induction rs arbitrary: h h' as b)
  case Nil
  then show ?case by simp
next
  case (Cons ra ras)
  from Cons.prems(1) obtain cs rest where
    cs: "cellsAt h ra = Some cs" and rest: "rowsOf h ras = Some rest" and b: "b = cs # rest"
    by (auto split: option.splits)
  from Cons.prems(2) cs obtain as' where
    rec: "copyRows (h @ [Cells cs]) ras = Inr (h', as')" and as: "as = length h # as'"
    by (auto simp: alloc_def bindE_eq_Inr)
  from Cons.IH [OF rowsOf_append [OF rest] rec] have
    v: "rowsOf h' as' = Some rest" and d: "distinct as'" and
    f: "\<forall>a\<in>set as'. length (h @ [Cells cs]) \<le> a"
    by auto
  have "cellsAt (h @ [Cells cs]) (length h) = Some cs" by (simp add: cellsAt_def)
  moreover have "ext (length (h @ [Cells cs])) (h @ [Cells cs]) h'"
    using copyRows_ext [OF _ rec] by simp
  ultimately have "cellsAt h' (length h) = Some cs" by (rule cellsAt_ext [rotated])
  with v b as have "rowsOf h' as = Some b" by simp
  moreover from f have "length h \<notin> set as'" by auto
  ultimately show ?case using d f as by auto
qed

lemma mapCopy_value:
  assumes "boardAt h a = Some b" "mapCopy h a = Inr (h', a')"
  shows "holds h' a' b"
proof -
  from assms(1) obtain rs where rs: "rowsAt h a = Some rs" "rowsOf h rs = Some b"
    by (auto simp: boardAt_def split: option.splits)
  from assms(2) rs(1) obtain h1 as where
    c: "copyRows h rs = Inr (h1, as)" and res: "h' = h1 @ [Rows as]" "a' = length h1"
    by (auto simp: mapCopy_def alloc_def bindE_eq_Inr)
  from copyRows_value [OF rs(2) c] have "rowsOf h1 as = Some b" "distinct as" by auto
  moreover have "rowsAt h' a' = Some as" by (simp add: res rowsAt_def)
  ultimately show ?thesis by (auto simp: holds_def res rowsOf_append)
qed

lemma spread_value:
  assumes "holds h a b" "spread h a = Inr (h', a')"
  shows "holds h' a' b"
proof -
  from assms(1) obtain rs where rs: "rowsAt h a = Some rs" "distinct rs" "rowsOf h rs = Some b"
    by (auto simp: holds_def)
  from assms(2) rs(1) have res: "h' = h @ [Rows rs]" "a' = length h"
    by (auto simp: spread_def alloc_def)
  have "rowsAt h' a' = Some rs" by (simp add: res rowsAt_def)
  with rs show ?thesis by (auto simp: holds_def res rowsOf_append)
qed

lemma filterMovesH_value:
  "boardAt h ba = Some b \<Longrightarrow> filterMovesH cands row col h ba w = Inr (h', valid) \<Longrightarrow>
   filterMoves cands row col b w = Inr valid"
proof (induction cands arbitrary: h valid)
  case Nil
  then show ?case by simp
next
  case (Cons move rest)
  from Cons.prems(2) obtain h1 ta p h2 h3 chk v where
    c: "mapCopy h ba = Inr (h1, ta)" and
    p: "withBoard h1 ta (\<lambda>t. cellAt t row col) = Inr p" and
    w1: "writeCell h1 ta (fst move) (snd move) p = Inr h2" and
    w2: "writeCell h2 ta row col [] = Inr h3" and
    chk: "withBoard h3 ta (\<lambda>t. isKingInCheck t w) = Inr chk" and
    rec: "filterMovesH rest row col h3 ba w = Inr (h', v)" and
    valid: "valid = (if \<not> chk then move # v else v)"
    by (auto simp: bindE_eq_Inr)
  from mapCopy_value [OF Cons.prems(1) c] have v1: "holds h1 ta b" .
  from p v1 have pb: "cellAt b row col = Inr p" by (simp add: withBoard_holds)
  from holds_write [OF v1 w1] obtain t1 where
    t1: "setCell b (fst move) (snd move) p = Inr t1" "holds h2 ta t1" by blast
  from holds_write [OF t1(2) w2] obtain t where
    t: "setCell t1 row col [] = Inr t" "holds h3 ta t" by blast
  from pb t1(1) t(1) have tb: "testBoard b row col move = Inr t" by (simp add: testBoard_def)
  from chk t(2) have ck: "isKingInCheck t w = Inr chk" by (simp add: withBoard_holds)
  from mapCopy_ext [OF order_refl c] have
    e1: "ext (length h) h h1" and f1: "freshRows (length h) h1 ta" by auto
  from ext_writeCell [OF ext_len [OF e1] f1 w1] have e2: "ext (length h) h1 h2" .
  from ext_writeCell [OF ext_len [OF e2] freshRows_ext [OF f1 e2] w2]
  have e3: "ext (length h) h2 h3" .
  from e1 e2 e3 have "ext (length h) h h3" by (blast intro: ext_trans)
  from boardAt_ext [OF this Cons.prems(1)] have "boardAt h3 ba = Some b" .
  from Cons.IH [OF this rec] tb ck valid show ?case by simp
qed

lemma getPossibleMovesH_value:
  assumes "boardAt h ba = Some b" "rightsAt h ga = Some g"
    "getPossibleMovesH row col h ba ga = Inr (h', ms)"
  shows "getPossibleMoves row col b g = Inr ms"
proof -
  from assms(1,3) obtain piece where piece: "cellAt b row col = Inr piece"
    by (auto simp: getPossibleMovesH_def withBoard_boardAt bindE_eq_Inr)
  show ?thesis
  proof (cases "piece = []")
    case True
    with assms piece show ?thesis
      by (simp add: getPossibleMovesH_def getPossibleMoves_def withBoard_boardAt)
  next
    case False
    with assms piece obtain raw castle where
      raw: "getRawPossibleMoves row col b = Inr raw" and
      castle: "(if charAt piece 1 = ''K'' then castlingMoves b g (charAt piece 0 = ''w'')
                else Inr []) = Inr castle" and
      f: "filterMovesH (raw @ castle) row col h ba (charAt piece 0 = ''w'') = Inr (h', ms)"
      by (auto simp: getPossibleMovesH_def withBoard_boardAt Let_def bindE_eq_Inr
               split: if_splits)
    from filterMovesH_value [OF assms(1) f] piece False raw castle show ?thesis
      by (simp add: getPossibleMoves_def Let_def)
  qed
qed

lemma collectBlackH_value:
  "boardAt h ba = Some b \<Longrightarrow> rightsAt h ga = Some g \<Longrightarrow>
   collectBlackH sqs h ba ga = Inr (h', ps) \<Longrightarrow> collectBlack sqs b g = Inr ps"
proof (induction sqs arbitrary: h ps)
  case Nil
  then show ?case by simp
next
  case (Cons sq sqs)
  from Cons.prems(1,3) obtain piece where piece: "cellAt b (fst sq) (snd sq) = Inr piece"
    by (auto simp: withBoard_boardAt bindE_eq_Inr)
  show ?case
  proof (cases "piece \<noteq> [] \<and> charAt piece 0 = ''b''")
    case False
    with Cons.prems piece have "collectBlackH sqs h ba ga = Inr (h', ps)"
      by (auto simp: withBoard_boardAt)
    from Cons.IH [OF Cons.prems(1,2) this] piece False show ?thesis by auto
  next
    case True
    with Cons.prems piece obtain h1 ms others where
      g: "getPossibleMovesH (fst sq) (snd sq) h ba ga = Inr (h1, ms)" and
      r: "collectBlackH sqs h1 ba ga = Inr (h', others)" and
      ps: "ps = (if length ms > 0 then (fst sq, snd sq, piece, ms) # others else others)"
      by (auto simp: withBoard_boardAt bindE_eq_Inr)
    from getPossibleMovesH_ext [OF order_refl g] have e: "ext (length h) h h1" .
    from Cons.IH [OF boardAt_ext [OF e Cons.prems(1)] rightsAt_ext [OF e Cons.prems(2)] r]
      getPossibleMovesH_value [OF Cons.prems(1,2) g] piece True ps
    show ?thesis by simp
  qed
qed

lemma moveRookH_value:
  assumes "holds h nb b" "moveRookH h nb r ct cf = Inr h'"
  shows "\<exists>b'. moveRook b r ct cf = Inr b' \<and> holds h' nb b' \<and>
           (\<forall>a. rightsAt h' a = rightsAt h a)"
proof -
  from assms obtain x h1 where
    x: "cellAt b r cf = Inr x" and
    w1: "writeCell h nb r ct x = Inr h1" and w2: "writeCell h1 nb r cf [] = Inr h'"
    by (auto simp: moveRookH_def withBoard_holds bindE_eq_Inr)
  from holds_write [OF assms(1) w1] obtain b1 where
    b1: "setCell b r ct x = Inr b1" "holds h1 nb b1" by blast
  from holds_write [OF b1(2) w2] obtain b2 where
    b2: "setCell b1 r cf [] = Inr b2" "holds h' nb b2" by blast
  from x b1(1) b2(1) have "moveRook b r ct cf = Inr b2" by (simp add: moveRook_def)
  with b2(2) rightsAt_write [OF w1] rightsAt_write [OF w2] show ?thesis by auto
qed

lemma kingMovedH_value:
  assumes v: "holds h nb b" and g: "rightsAt h na = Some g"
    and k: "kingMovedH piece fr fc tc h nb na = Inr h'"
  shows "\<exists>b1 g1. kingMoved piece fr fc tc b g = Inr (b1, g1) \<and> holds h' nb b1 \<and>
           rightsAt h' na = Some g1"
proof -
  have plain: "\<exists>b1 g1. Inr (b, f g) = Inr (b1, g1) \<and> holds (updRights h na f) nb b1 \<and>
      rightsAt (updRights h na f) na = Some g1" for f
    using holds_updRights [OF v] rightsAt_updRights [OF g] by simp
  have rook: "\<exists>b1 g1. bindE (moveRook b r ct cf) (\<lambda>b1. Inr (b1, f g)) = Inr (b1, g1) \<and>
      holds h' nb b1 \<and> rightsAt h' na = Some g1"
    if "moveRookH (updRights h na f) nb r ct cf = Inr h'" for f r ct cf
    using moveRookH_value [OF holds_updRights [OF v] that] rightsAt_updRights [OF g, of f]
    by auto
  consider (w6) "piece = ''wK''" "fr = 7 \<and> fc = 4" "tc = 6"
    | (w2) "piece = ''wK''" "fr = 7 \<and> fc = 4" "tc \<noteq> 6" "tc = 2"
    | (w0) "piece = ''wK''" "\<not> (fr = 7 \<and> fc = 4 \<and> (tc = 6 \<or> tc = 2))"
    | (b6) "piece \<noteq> ''wK''" "piece = ''bK''" "fr = 0 \<and> fc = 4" "tc = 6"
    | (b2) "piece \<noteq> ''wK''" "piece = ''bK''" "fr = 0 \<and> fc = 4" "tc \<noteq> 6" "tc = 2"
    | (b0) "piece \<noteq> ''wK''" "piece = ''bK''" "\<not> (fr = 0 \<and> fc = 4 \<and> (tc = 6 \<or> tc = 2))"
    | (no) "piece \<noteq> ''wK''" "piece \<noteq> ''bK''"
    by blast
  then show ?thesis
  proof cases
    case w6
    with k rook show ?thesis by (simp add: kingMovedH_def kingMoved_def)
  next
    case w2
    with k rook show ?thesis by (simp add: kingMovedH_def kingMoved_def)
  next
    case w0
    with k plain show ?thesis by (auto simp: kingMovedH_def kingMoved_def)
  next
    case b6
    with k rook show ?thesis by (simp add: kingMovedH_def kingMoved_def)
  next
    case b2
    with k rook show ?thesis by (simp add: kingMovedH_def kingMoved_def)
  next
    case b0
    with k plain show ?thesis by (auto simp: kingMovedH_def kingMoved_def)
  next
    case no
    with k v g show ?thesis by (simp add: kingMovedH_def kingMoved_def)
  qed
qed

lemma updateGameStateH_value:
  assumes v: "holds h nb b" and g: "rightsAt h ga = Some g"
    and u: "updateGameStateH fr fc tr tc h nb ga = Inr (h', na)"
  shows "\<exists>b1 g1. updateGameState fr fc tr tc b g = Inr (b1, g1) \<and> holds h' nb b1 \<and>
           rightsAt h' na = Some g1"
proof -
  let ?h0 = "h @ [Rights g]"
  have v0: "holds ?h0 nb b" using v by (rule holds_append)
  from u g obtain piece h1 tp where
    na: "na = length h" and
    piece: "withBoard ?h0 nb (\<lambda>b. cellAt b fr fc) = Inr piece" and
    k: "kingMovedH piece fr fc tc ?h0 nb na = Inr h1" and
    tp: "withBoard h1 nb (\<lambda>b. cellAt b tr tc) = Inr tp" and
    h': "h' = updRights h1 na (\<lambda>g1. rookGone tp tr tc (rookGone piece fr fc g1))"
    by (auto simp: updateGameStateH_def alloc_def bindE_eq_Inr)
  have g0: "rightsAt ?h0 na = Some g" by (simp add: na rightsAt_def)
  from piece v0 have pb: "cellAt b fr fc = Inr piece" by (simp add: withBoard_holds)
  from kingMovedH_value [OF v0 g0 k] obtain b1 g1 where
    km: "kingMoved piece fr fc tc b g = Inr (b1, g1)" and
    v1: "holds h1 nb b1" and g1: "rightsAt h1 na = Some g1"
    by blast
  from tp v1 have tb: "cellAt b1 tr tc = Inr tp" by (simp add: withBoard_holds)
  from pb km tb have
    "updateGameState fr fc tr tc b g =
       Inr (b1, rookGone tp tr tc (rookGone piece fr fc g1))"
    by (simp add: updateGameState_def)
  moreover have "holds h' nb b1" unfolding h' using v1 by (rule holds_updRights)
  moreover have "rightsAt h' na = Some (rookGone tp tr tc (rookGone piece fr fc g1))"
    unfolding h' using rightsAt_updRights [OF g1] by simp
  ultimately show ?thesis by blast
qed

lemma promotePawnH_value:
  assumes "holds h nb b" "promotePawnH row col h nb k = Inr h'"
  shows "\<exists>b'. promotePawn row col b k = Inr b' \<and> holds h' nb b' \<and>
           (\<forall>a. rightsAt h' a = rightsAt h a)"
proof -
  from assms obtain piece where piece: "cellAt b row col = Inr piece"
    by (auto simp: promotePawnH_def withBoard_holds bindE_eq_Inr)
  show ?thesis
  proof (cases "piece = [] \<or> charAt piece 1 \<noteq> ''P''")
    case True
    with assms piece show ?thesis
      by (auto simp: promotePawnH_def promotePawn_def withBoard_holds)
  next
    case False
    with assms piece have w: "writeCell h nb row col (charAt piece 0 @ k) = Inr h'"
      by (auto simp: promotePawnH_def withBoard_holds)
    from holds_write [OF assms(1) w] rightsAt_write [OF w] piece False show ?thesis
      by (auto simp: promotePawn_def)
  qed
qed

lemma applySelectedH_value:
  assumes v: "holds h nb b" and g: "rightsAt h ngs = Some g"
    and a: "applySelectedH h nb ngs selRow selCol selPiece tm = Inr (h', nb', ng')"
  shows "\<exists>bf gf.
           bindE (applyMove selRow selCol (fst tm) (snd tm) selPiece b g)
             (\<lambda>(newBoard, newGameState).
                bindE (canPromotePawn (fst tm) (snd tm) newBoard) (\<lambda>promo.
                  if promo then
                    bindE (promotePawn (fst tm) (snd tm) newBoard ''Q'')
                      (\<lambda>promoted. Inr (promoted, newGameState))
                  else Inr (newBoard, newGameState))) = Inr (bf, gf) \<and>
           holds h' nb' bf \<and> rightsAt h' ng' = Some gf"
proof -
  from a obtain h5 h6 h7 promo where
    u: "updateGameStateH selRow selCol (fst tm) (snd tm) h nb ngs = Inr (h5, ng')" and
    w1: "writeCell h5 nb (fst tm) (snd tm) selPiece = Inr h6" and
    w2: "writeCell h6 nb selRow selCol [] = Inr h7" and
    cp: "withBoard h7 nb (canPromotePawn (fst tm) (snd tm)) = Inr promo" and
    fin: "if promo then promotePawnH (fst tm) (snd tm) h7 nb ''Q'' = Inr h' else h' = h7" and
    nb: "nb' = nb"
    by (auto simp: applySelectedH_def bindE_eq_Inr split: if_splits)
  from updateGameStateH_value [OF v g u] obtain b1 g1 where
    ug: "updateGameState selRow selCol (fst tm) (snd tm) b g = Inr (b1, g1)" and
    v5: "holds h5 nb b1" and g5: "rightsAt h5 ng' = Some g1"
    by blast
  from holds_write [OF v5 w1] obtain b2 where
    b2: "setCell b1 (fst tm) (snd tm) selPiece = Inr b2" "holds h6 nb b2" by blast
  from holds_write [OF b2(2) w2] obtain b3 where
    b3: "setCell b2 selRow selCol [] = Inr b3" "holds h7 nb b3" by blast
  from applyMove_eq [OF ug b2(1) b3(1)]
  have am: "applyMove selRow selCol (fst tm) (snd tm) selPiece b g = Inr (b3, g1)" .
  from g5 rightsAt_write [OF w1] rightsAt_write [OF w2]
  have g7: "rightsAt h7 ng' = Some g1" by simp
  from cp b3(2) have cb: "canPromotePawn (fst tm) (snd tm) b3 = Inr promo"
    by (simp add: withBoard_holds)
  show ?thesis
  proof (cases promo)
    case False
    with fin am cb b3(2) g7 nb show ?thesis by simp
  next
    case True
    with fin have "promotePawnH (fst tm) (snd tm) h7 nb ''Q'' = Inr h'" by simp
    from promotePawnH_value [OF b3(2) this] obtain bq where
      "promotePawn (fst tm) (snd tm) b3 ''Q'' = Inr bq" "holds h' nb bq"
      "\<forall>a. rightsAt h' a = rightsAt h7 a"
      by blast
    with True am cb g7 nb show ?thesis by simp
  qed
qed

lemma makeComputerMoveH_value:
  assumes b: "boardAt h board = Some b" and g: "rightsAt h gameState = Some g"
    and m: "makeComputerMoveH h board gameState u1 u2 = Inr (h', nb, ng)"
  shows "\<exists>b' g'. makeComputerMove b g u1 u2 = Inr (b', g') \<and>
           boardAt h' nb = Some b' \<and> rightsAt h' ng = Some g'"
proof -
  from m obtain h1 mapped h2 newBoard g2 h4 bps where
    c: "mapCopy h board = Inr (h1, mapped)" and
    s: "spread h1 mapped = Inr (h2, newBoard)" and
    g2: "rightsAt h2 gameState = Some g2" and
    cb: "collectBlackH allSquares (h2 @ [Rights g2]) board gameState = Inr (h4, bps)" and
    fin: "(if bps \<noteq> [] then
             (case bps ! randomIndex u1 (length bps) of
                (selRow, selCol, selPiece, selMoves) \<Rightarrow>
                  applySelectedH h4 newBoard (length h2) selRow selCol selPiece
                    (selMoves ! randomIndex u2 (length selMoves)))
           else Inr (h4, newBoard, length h2)) = Inr (h', nb, ng)"
    by (auto simp: makeComputerMoveH_def alloc_def bindE_eq_Inr split: option.splits)
  let ?h3 = "h2 @ [Rights g2]"
  from mapCopy_ext [OF order_refl c] have
    e1: "ext (length h) h h1" and f1: "freshRows (length h) h1 mapped" by auto
  from spread_ext [OF ext_len [OF e1] f1 s] have e2: "ext (length h) h1 h2" by auto
  have e3: "ext (length h) h2 ?h3"
    using ext_alloc [OF ext_len [OF e2], of "Rights g2"] by (simp add: alloc_def)
  from e1 e2 have e12: "ext (length h) h h2" by (rule ext_trans)
  from e12 e3 have e13: "ext (length h) h ?h3" by (rule ext_trans)
  from rightsAt_ext [OF e12 g] g2 have gg: "g2 = g" by simp
  have v3: "holds ?h3 newBoard b"
    using holds_append [OF spread_value [OF mapCopy_value [OF b c] s]] .
  have r3: "rightsAt ?h3 (length h2) = Some g" by (simp add: rightsAt_def gg)
  from collectBlackH_value [OF boardAt_ext [OF e13 b] rightsAt_ext [OF e13 g] cb]
  have cbv: "collectBlack allSquares b g = Inr bps" .
  from collectBlackH_ext [OF order_refl cb] have e4: "ext (length ?h3) ?h3 h4" .
  from holds_ext [OF e4 v3] have v4: "holds h4 newBoard b" .
  from rightsAt_ext [OF e4 r3] have r4: "rightsAt h4 (length h2) = Some g" .
  show ?thesis
  proof (cases "bps \<noteq> []")
    case False
    with fin cbv v4 r4 show ?thesis
      by (auto simp: makeComputerMove_def holds_boardAt)
  next
    case True
    obtain selRow selCol selPiece selMoves where
      sel: "bps ! randomIndex u1 (length bps) = (selRow, selCol, selPiece, selMoves)"
      by (cases "bps ! randomIndex u1 (length bps)") auto
    with fin True have
      "applySelectedH h4 newBoard (length h2) selRow selCol selPiece
         (selMoves ! randomIndex u2 (length selMoves)) = Inr (h', nb, ng)"
      by simp
    from applySelectedH_value [OF v4 r4 this] cbv True sel show ?thesis
      by (auto simp: makeComputerMove_def Let_def holds_boardAt)
  qed
qed

text \<open>
  C10. When \<open>makeComputerMove\<close> returns, every object that was on the heap before the call
  is as it was: the board and the rights record passed in read as before. The returned
  board, each of its rows and the returned rights record are objects made during the call,
  and they hold the board and the rights that \<open>makeComputerMove\<close> computes from the values
  passed in (the chosen move, the castling rook, the promotion).
\<close>

theorem makeComputerMove_frame:
  assumes "makeComputerMoveH h board gameState u1 u2 = Inr (h', newBoard, newGameState)"
  shows "take (length h) h' = h \<and>
         (\<forall>b. boardAt h board = Some b \<longrightarrow> boardAt h' board = Some b) \<and>
         (\<forall>g. rightsAt h gameState = Some g \<longrightarrow> rightsAt h' gameState = Some g) \<and>
         length h \<le> newBoard \<and> length h \<le> newGameState \<and>
         freshRows (length h) h' newBoard \<and>
         (\<forall>b g. boardAt h board = Some b \<and> rightsAt h gameState = Some g \<longrightarrow>
            (\<exists>b' g'. makeComputerMove b g u1 u2 = Inr (b', g') \<and>
                      boardAt h' newBoard = Some b' \<and> rightsAt h' newGameState = Some g'))"
proof -
  from makeComputerMoveH_ext [OF assms] have
    e: "ext (length h) h h'" and
    r: "freshRows (length h) h' newBoard" "length h \<le> newBoard" "length h \<le> newGameState"
    by auto
  from e have "take (length h) h' = h" by (simp add: ext_def)
  moreover have "\<forall>b g. boardAt h board = Some b \<and> rightsAt h gameState = Some g \<longrightarrow>
      (\<exists>b' g'. makeComputerMove b g u1 u2 = Inr (b', g') \<and>
                boardAt h' newBoard = Some b' \<and> rightsAt h' newGameState = Some g')"
    using makeComputerMoveH_value [OF _ _ assms] by blast
  ultimately show ?thesis
    using r boardAt_ext [OF e] rightsAt_ext [OF e] by blast
qed

theorem makeComputerMove_frame_witness:
  "\<exists>h' nb ng.
     makeComputerMoveH (heapOf promoBoard initialGameState) 8 9 (1 / 2) (1 / 3) =
       Inr (h', nb, ng) \<and>
     take 10 h' = heapOf promoBoard initialGameState \<and>
     boardAt (heapOf promoBoard initialGameState) 8 = Some promoBoard \<and>
     boardAt h' 8 = Some promoBoard \<and>
     rightsAt (heapOf promoBoard initialGameState) 9 = Some initialGameState \<and>
     rightsAt h' 9 = Some initialGameState \<and>
     10 \<le> nb \<and> 10 \<le> ng \<and> freshRows 10 h' nb \<and>
     makeComputerMove promoBoard initialGameState (1 / 2) (1 / 3) =
       Inr (promotedBoard, initialGameState) \<and>
     boardAt h' nb = Some promotedBoard \<and> rightsAt h' ng = Some initialGameState"
proof -
  let ?h = "heapOf promoBoard initialGameState"
  have run: "case makeComputerMoveH ?h 8 9 (1 / 2) (1 / 3) of
      Inl e \<Rightarrow> False
    | Inr (h', nb, ng) \<Rightarrow> True"
    by code_simp
  then obtain h' nb ng where
    m: "makeComputerMoveH ?h 8 9 (1 / 2) (1 / 3) = Inr (h', nb, ng)"
    by (auto split: sum.splits)
  have l: "length ?h = 10" by (simp add: heapOf_def promoBoard_def)
  have b: "boardAt ?h 8 = Some promoBoard" by code_simp
  have g: "rightsAt ?h 9 = Some initialGameState" by code_simp
  have p: "makeComputerMove promoBoard initialGameState (1 / 2) (1 / 3) =
      Inr (promotedBoard, initialGameState)"
    by code_simp
  from makeComputerMove_frame [OF m] l b g have
    "take 10 h' = ?h" "boardAt h' 8 = Some promoBoard"
    "rightsAt h' 9 = Some initialGameState" "10 \<le> nb" "10 \<le> ng" "freshRows 10 h' nb"
    "\<exists>b' g'. makeComputerMove promoBoard initialGameState (1 / 2) (1 / 3) = Inr (b', g') \<and>
       boardAt h' nb = Some b' \<and> rightsAt h' ng = Some g'"
    by auto
  with m b g p show ?thesis by auto
qed

end
